theory Spec2Isabelle
  imports Main "HOL-Library.Word" "HOL-Library.Multiset"
begin

section \<open>The bounded queue: \<^verbatim>\<open>ctpl::detail::Queue\<close>\<close>

text \<open>
  The class has four members: the \<^verbatim>\<open>std::queue q\<close> (its front is the head of the
  list), the \<^verbatim>\<open>uint32_t limit_\<close> (the field \<open>limit\<close>), a mutex and a condition variable. Every method holds
  the mutex for its whole body, so a method body is one atomic step; the only place
  where the mutex is given up in the middle is \<^verbatim>\<open>cv.wait(lock)\<close> in \<^verbatim>\<open>push\<close>, so
  \<^verbatim>\<open>push\<close> is two steps when it waits. The condition variable is its wait set: the
  identifiers of the threads suspended in \<^verbatim>\<open>cv.wait\<close>. Spurious wake-ups are left out:
  a thread leaves the wait set only through \<^verbatim>\<open>notify_one\<close>.
\<close>

record 'a Queue =
  q :: "'a list"
  limit :: "32 word"
  cv :: "nat list"

definition Queue_init :: "'a Queue" where
  "Queue_init = \<lparr>q = [], limit = 0, cv = []\<rparr>"

text \<open>
  \<^verbatim>\<open>notify_one\<close> on a wait set: the standard leaves open which waiting thread is
  unblocked, so the choice \<open>k\<close> is an argument. The result is the unblocked thread (if any
  thread waits) and the remaining wait set.
\<close>

definition notify_one :: "nat \<Rightarrow> nat list \<Rightarrow> nat option \<times> nat list" where
  "notify_one k ws =
     (if ws = [] then (None, ws)
      else (Some (ws ! (k mod length ws)),
            take (k mod length ws) ws @ drop (Suc (k mod length ws)) ws))"

text \<open>
  \<^verbatim>\<open>push\<close>, first step, by thread \<open>c\<close>: the test \<^verbatim>\<open>q.size() >= limit_\<close> compares a
  \<^verbatim>\<open>size_t\<close> with the \<^verbatim>\<open>uint32_t\<close> converted to \<^verbatim>\<open>size_t\<close>. When it holds the thread
  enters \<^verbatim>\<open>cv.wait\<close> (result \<open>None\<close>: the call has not returned); otherwise the value is
  appended and the call returns \<^verbatim>\<open>true\<close>.
\<close>

definition push :: "nat \<Rightarrow> 'a \<Rightarrow> 'a Queue \<Rightarrow> bool option \<times> 'a Queue" where
  "push c v Q =
     (if unat (limit Q) \<le> length (q Q) then (None, Q\<lparr>cv := cv Q @ [c]\<rparr>)
      else (Some True, Q\<lparr>q := q Q @ [v]\<rparr>))"

text \<open>
  \<^verbatim>\<open>push\<close>, second step, of a thread that \<^verbatim>\<open>notify_one\<close> took out of the wait set: the
  wait is under an \<^verbatim>\<open>if\<close>, so the size is not tested again.
\<close>

definition push_resume :: "'a \<Rightarrow> 'a Queue \<Rightarrow> bool \<times> 'a Queue" where
  "push_resume v Q = (True, Q\<lparr>q := q Q @ [v]\<rparr>)"

text \<open>
  \<^verbatim>\<open>pop\<close>: \<open>None\<close> is the return value \<^verbatim>\<open>false\<close> (the out-parameter is left alone),
  \<open>Some v\<close> is \<^verbatim>\<open>true\<close> with \<open>v\<close> stored in the out-parameter. The second component is
  the thread that \<^verbatim>\<open>cv.notify_one()\<close> unblocked.
\<close>

definition pop :: "nat \<Rightarrow> 'a Queue \<Rightarrow> 'a option \<times> nat option \<times> 'a Queue" where
  "pop k Q =
     (case q Q of
        [] \<Rightarrow> (None, None, Q)
      | v # rest \<Rightarrow>
          (Some v, fst (notify_one k (cv Q)),
           Q\<lparr>q := rest, cv := snd (notify_one k (cv Q))\<rparr>))"

definition set_limit :: "32 word \<Rightarrow> 'a Queue \<Rightarrow> 'a Queue" where
  "set_limit n Q = Q\<lparr>limit := n\<rparr>"

section \<open>The tracker: \<^verbatim>\<open>ctpl::detail::ValueTracker\<close>\<close>

text \<open>
  The tracker keeps the last two values it was given and a table \<^verbatim>\<open>valueTimes\<close> of 64
  durations. \<^verbatim>\<open>updateValue(newValue)\<close> with a value other than the current one adds
  the time that has passed to \<^verbatim>\<open>valueTimes[previousValue]\<close> and shifts the two
  values. The table is a \<^verbatim>\<open>std::vector\<close> of size 64 that never grows (the
  \<^verbatim>\<open>resize(64, 0)\<close> of the printing branch leaves the size at 64), and \<^verbatim>\<open>operator[]\<close>
  does not test its index: a write with \<^verbatim>\<open>previousValue\<close> outside of \<open>0..63\<close> is
  undefined behaviour, the result \<open>None\<close>. The durations, the clock and the log are not
  modelled.
\<close>

record ValueTracker =
  previousValue :: int
  currentValue :: int

definition ValueTracker_init :: ValueTracker where
  "ValueTracker_init = \<lparr>previousValue = 0, currentValue = 0\<rparr>"

definition updateValue :: "int \<Rightarrow> ValueTracker \<Rightarrow> ValueTracker option" where
  "updateValue newValue T =
     (if newValue \<noteq> currentValue T then
        (if 0 \<le> previousValue T \<and> previousValue T < 64
         then Some \<lparr>previousValue = currentValue T, currentValue = newValue\<rparr>
         else None)
      else Some T)"

section \<open>The pool: \<^verbatim>\<open>ctpl::thread_pool\<close>\<close>

text \<open>
  A queue element is the pointer \<^verbatim>\<open>_f\<close> to a function object that invokes the
  \<^verbatim>\<open>std::packaged_task\<close> made by \<^verbatim>\<open>push\<close>. The model keeps the two things the
  packaged task consists of: the shared state that the future reads (\<open>chan\<close>, the index
  of a result channel) and the user's callable. The callable gets the index of the
  executing thread and returns a value (\<open>Inr\<close>) or raises (\<open>Inl\<close>); it is a total
  function, so a task that runs forever is outside the model.
\<close>

datatype ('e, 'v) task = Task (chan: nat) (callable: "int \<Rightarrow> 'e + 'v")

text \<open>The state of a \<^verbatim>\<open>std::thread\<close> object.\<close>

datatype handle = Joinable | Detached | Joined

text \<open>
  The shared state of a packaged task, as its future sees it: not ready; ready, with
  what the callable returned or raised; or abandoned, when the packaged task was
  destroyed before it was invoked: the future then holds a \<^verbatim>\<open>std::future_error\<close>
  with the code \<^verbatim>\<open>broken_promise\<close>.
\<close>

datatype 'r shared_state = Not_ready | Ready 'r | Broken_promise

text \<open>
  Where a worker is in the closure of \<^verbatim>\<open>set_thread\<close>:
  \<^item> \<open>W_pop\<close>: before \<^verbatim>\<open>isPop = this->q.pop(_f)\<close> (the one ahead of the loop, or the one
    in the \<^verbatim>\<open>else\<close> branch; both are followed by the test \<^verbatim>\<open>while (isPop)\<close>);
  \<^item> \<open>W_run f\<close>: \<^verbatim>\<open>isPop\<close> holds and \<^verbatim>\<open>_f\<close> is \<open>f\<close>, before \<^verbatim>\<open>(*_f)(i)\<close>;
  \<^item> \<open>W_check\<close>: before the test \<^verbatim>\<open>if (_flag)\<close>;
  \<^item> \<open>W_idle\<close>: the queue was empty, before the mutex is locked;
  \<^item> \<open>W_waiting\<close>: suspended in \<^verbatim>\<open>cv.wait\<close>; \<open>W_notified\<close>: unblocked by a notify,
    before the predicate is evaluated again;
  \<^item> \<open>W_exit\<close>: the closure has returned.
\<close>

datatype ('e, 'v) wpc =
  W_pop | W_run "('e, 'v) task" | W_check | W_idle | W_waiting | W_notified | W_exit

record ('e, 'v) worker =
  w_idx :: nat
  w_flag :: nat
  w_pc :: "('e, 'v) wpc"
  w_handle :: handle

text \<open>
  A thread inside \<^verbatim>\<open>thread_pool::push\<close>: before \<^verbatim>\<open>this->q.push(_f)\<close>, suspended in
  it, unblocked in it, before \<^verbatim>\<open>cv.notify_one()\<close>, returned.
\<close>

datatype ('e, 'v) cpc =
  C_enter "('e, 'v) task" | C_blocked "('e, 'v) task" | C_notified "('e, 'v) task"
  | C_pushed | C_done

text \<open>
  The thread that calls \<^verbatim>\<open>stop\<close> (the source asks for a single one): at the entry of
  \<^verbatim>\<open>stop(isWait)\<close>, in the loop over the flags (\<open>M_flags i n\<close>), in the first
  \<^verbatim>\<open>clear_queue\<close>, before \<^verbatim>\<open>notify_all\<close>, in the loop of joins, in the second
  \<^verbatim>\<open>clear_queue\<close>, before the two \<^verbatim>\<open>clear()\<close>, and outside of any call.
\<close>

datatype mpc =
  M_idle | M_stop bool | M_flags nat nat | M_clear1 | M_notify | M_join nat | M_clear2
  | M_finish

text \<open>
  The first eight fields are the members of \<^verbatim>\<open>thread_pool\<close> (\<open>queue\<close> is the member
  \<^verbatim>\<open>q\<close>, \<open>pool_cv\<close> the wait set of the member \<^verbatim>\<open>cv\<close>; \<open>tracker\<close> is \<open>None\<close> once
  the tracker has written outside of its table: the behaviour of the program is
  undefined from there on, and no thread has a step in such a state). The others are
  what the members point to and what runs beside the pool: the
  \<^verbatim>\<open>atomic<bool>\<close> objects made by \<^verbatim>\<open>make_shared\<close> (an address is a number, \<open>flags\<close>
  and \<open>w_flag\<close> hold addresses), the threads that were started (\<open>threads\<close> holds indices
  into \<open>workers\<close>), the threads inside \<^verbatim>\<open>push\<close>, the caller of \<^verbatim>\<open>stop\<close>, the result
  channels, and two logs: the tasks that were invoked, with the index passed to them,
  and the tasks that \<^verbatim>\<open>clear_queue\<close> deleted.
\<close>

record ('e, 'v) system =
  threads :: "nat list"
  flags :: "nat list"
  queue :: "('e, 'v) task Queue"
  isDone :: bool
  isStop :: bool
  nWaiting :: int
  tracker :: "ValueTracker option"
  pool_cv :: "nat list"
  atomics :: "nat \<Rightarrow> bool"
  n_atomics :: nat
  workers :: "('e, 'v) worker list"
  clients :: "('e, 'v) cpc list"
  mgr :: mpc
  channels :: "nat \<Rightarrow> ('e + 'v) shared_state"
  n_chans :: nat
  executed :: "(nat \<times> ('e, 'v) task) list"
  discarded :: "('e, 'v) task list"

text \<open>\<^verbatim>\<open>init()\<close> on a freshly constructed object.\<close>

definition init :: "('e, 'v) system" where
  "init = \<lparr>threads = [], flags = [], queue = Queue_init, isDone = False, isStop = False,
     nWaiting = 0, tracker = Some ValueTracker_init, pool_cv = [],
     atomics = (\<lambda>_. False), n_atomics = 0, workers = [], clients = [], mgr = M_idle,
     channels = (\<lambda>_. Not_ready), n_chans = 0, executed = [], discarded = []\<rparr>"

text \<open>\<^verbatim>\<open>size()\<close>: the \<^verbatim>\<open>size_t\<close> is cast to \<^verbatim>\<open>int\<close>.\<close>

definition pool_size :: "('e, 'v) system \<Rightarrow> 32 word" where
  "pool_size s = word_of_nat (length (threads s))"

definition set_pc :: "nat \<Rightarrow> ('e, 'v) wpc \<Rightarrow> ('e, 'v) system \<Rightarrow> ('e, 'v) system" where
  "set_pc t pc s = s\<lparr>workers := (workers s)[t := (workers s ! t)\<lparr>w_pc := pc\<rparr>]\<rparr>"

text \<open>\<^verbatim>\<open>this->tracker.updateValue(this->nWaiting)\<close>.\<close>

definition update_tracker :: "('e, 'v) system \<Rightarrow> ('e, 'v) system" where
  "update_tracker s = s\<lparr>tracker := Option.bind (tracker s) (updateValue (nWaiting s))\<rparr>"

text \<open>A notify reaches a thread only while it is suspended in the wait.\<close>

definition wake_worker :: "nat \<Rightarrow> ('e, 'v) worker list \<Rightarrow> ('e, 'v) worker list" where
  "wake_worker t ws =
     (if t < length ws \<and> w_pc (ws ! t) = W_waiting
      then ws[t := (ws ! t)\<lparr>w_pc := W_notified\<rparr>] else ws)"

definition notify_all :: "nat list \<Rightarrow> ('e, 'v) worker list \<Rightarrow> ('e, 'v) worker list" where
  "notify_all ts ws = fold wake_worker ts ws"

definition wake_client :: "nat option \<Rightarrow> ('e, 'v) cpc list \<Rightarrow> ('e, 'v) cpc list" where
  "wake_client w cs =
     (case w of
        None \<Rightarrow> cs
      | Some c \<Rightarrow>
          (if c < length cs
           then (case cs ! c of C_blocked f \<Rightarrow> cs[c := C_notified f] | _ \<Rightarrow> cs)
           else cs))"

text \<open>
  \<^verbatim>\<open>this->q.pop(_f)\<close> as the pool calls it: the queue's \<open>pop\<close>, and the thread its
  \<^verbatim>\<open>notify_one\<close> unblocked goes on in \<^verbatim>\<open>push\<close>.
\<close>

definition queue_pop ::
  "nat \<Rightarrow> ('e, 'v) system \<Rightarrow> ('e, 'v) task option \<times> ('e, 'v) system" where
  "queue_pop k s =
     (case pop k (queue s) of
        (r, w, Q) \<Rightarrow> (r, s\<lparr>queue := Q, clients := wake_client w (clients s)\<rparr>))"

subsection \<open>\<^verbatim>\<open>resize\<close> and the constructors\<close>

text \<open>
  One pass of the growing loop: \<^verbatim>\<open>flags[i] = make_shared<atomic<bool>>(false)\<close> and
  \<^verbatim>\<open>set_thread(i)\<close>, which starts a thread at the head of the closure with copies of
  \<open>i\<close> and of the pointer to the flag. The source first resizes both vectors and then
  fills slot \<open>i\<close>; the model appends slot \<open>i\<close>.
\<close>

definition set_thread :: "nat \<Rightarrow> ('e, 'v) system \<Rightarrow> ('e, 'v) system" where
  "set_thread i s =
     s\<lparr>threads := threads s @ [length (workers s)],
       flags := flags s @ [n_atomics s],
       atomics := (atomics s)(n_atomics s := False),
       n_atomics := Suc (n_atomics s),
       workers := workers s @
         [\<lparr>w_idx = i, w_flag = n_atomics s, w_pc = W_pop, w_handle = Joinable\<rparr>]\<rparr>"

text \<open>
  One pass of the shrinking loop: \<^verbatim>\<open>*this->flags[i] = true\<close> and
  \<^verbatim>\<open>this->threads[i]->detach()\<close>.
\<close>

definition detach_thread :: "nat \<Rightarrow> ('e, 'v) system \<Rightarrow> ('e, 'v) system" where
  "detach_thread i s =
     s\<lparr>atomics := (atomics s)(flags s ! i := True),
       workers := (workers s)[threads s ! i :=
         (workers s ! (threads s ! i))\<lparr>w_handle := Detached\<rparr>]\<rparr>"

text \<open>
  \<^verbatim>\<open>resize(nThreads)\<close>, as one step of its caller. \<open>None\<close> stands for behaviour the
  source leaves undefined: \<^verbatim>\<open>nThreads < 0\<close> on a running pool (the shrinking loop
  reaches \<^verbatim>\<open>flags[-1]\<close>; the source's comment asks for \<^verbatim>\<open>nThreads >= 0\<close>), a number
  of threads that the cast to \<^verbatim>\<open>int\<close> does not keep, and vectors of different lengths.
\<close>

definition resize :: "32 word \<Rightarrow> ('e, 'v) system \<Rightarrow> ('e, 'v) system option" where
  "resize nThreads s =
     (if \<not> isStop s \<and> \<not> isDone s then
        (let oldNThreads = (word_of_nat (length (threads s)) :: 32 word) in
         if sint nThreads < 0 \<or> sint oldNThreads \<noteq> int (length (threads s))
            \<or> length (flags s) \<noteq> length (threads s) then None
         else if sint oldNThreads \<le> sint nThreads then
           Some (fold set_thread [nat (sint oldNThreads) ..< nat (sint nThreads)] s)
         else
           (let s1 = fold detach_thread
                       (rev [nat (sint nThreads) ..< nat (sint oldNThreads)]) s;
                s2 = s1\<lparr>workers := notify_all (pool_cv s1) (workers s1), pool_cv := []\<rparr>
            in Some (s2\<lparr>threads := take (nat (sint nThreads)) (threads s2),
                        flags := take (nat (sint nThreads)) (flags s2)\<rparr>)))
      else Some s)"

text \<open>The two constructors.\<close>

definition thread_pool_default :: "('e, 'v) system" where
  "thread_pool_default = init"

definition thread_pool :: "32 word \<Rightarrow> ('e, 'v) system option" where
  "thread_pool nThreads =
     (case resize nThreads init of
        None \<Rightarrow> None
      | Some s \<Rightarrow> Some (s\<lparr>queue := set_limit 1 (queue s)\<rparr>))"

subsection \<open>The worker\<close>

text \<open>
  The body of \<^verbatim>\<open>cv.wait(lock, pred)\<close> from the point where the mutex is held: the
  predicate pops, and is true when it popped, when \<^verbatim>\<open>isDone\<close> is set or when the
  worker's flag is set. When it is true the worker decrements \<^verbatim>\<open>nWaiting\<close> and
  returns if nothing was popped; when it is false the worker is suspended. The mutex is
  held throughout, so this is one step. The two flags are atomics that are written
  without the mutex, and they are read here at the instant of the pop: a flag that
  is set stays set, and the thread that sets one calls \<^verbatim>\<open>notify_all\<close> under the
  mutex afterwards, so a worker that read the old value and was suspended is woken and
  evaluates the predicate again. Spurious wake-ups are left out: a worker that wakes
  without a notify evaluates the predicate again, which is a step that a notified
  worker takes as well. The tracker is told the new value of \<^verbatim>\<open>nWaiting\<close> after the
  increment (in the step of \<open>W_idle\<close> below) and after the decrement, under the mutex.
\<close>

definition wait_pred :: "nat \<Rightarrow> nat \<Rightarrow> ('e, 'v) system \<Rightarrow> ('e, 'v) system" where
  "wait_pred k t s =
     (case queue_pop k s of
        (Some f, s1) \<Rightarrow>
          set_pc t (W_run f) (update_tracker (s1\<lparr>nWaiting := nWaiting s1 - 1\<rparr>))
      | (None, s1) \<Rightarrow>
          (if isDone s1 \<or> atomics s1 (w_flag (workers s1 ! t))
           then set_pc t W_exit (update_tracker (s1\<lparr>nWaiting := nWaiting s1 - 1\<rparr>))
           else set_pc t W_waiting (s1\<lparr>pool_cv := pool_cv s1 @ [t]\<rparr>)))"

text \<open>
  One step of worker \<open>t\<close>; \<open>None\<close> when it has none (suspended, returned, or no such
  thread). Invoking the task is invoking the packaged task: what the callable returns
  or raises is stored in the shared state, and nothing is raised in the worker.
\<close>

definition worker_step :: "nat \<Rightarrow> nat \<Rightarrow> ('e, 'v) system \<Rightarrow> ('e, 'v) system option" where
  "worker_step k t s =
     (if length (workers s) \<le> t then None
      else
        (case w_pc (workers s ! t) of
           W_pop \<Rightarrow>
             (case queue_pop k s of
                (Some f, s1) \<Rightarrow> Some (set_pc t (W_run f) s1)
              | (None, s1) \<Rightarrow> Some (set_pc t W_idle s1))
         | W_run f \<Rightarrow>
             Some (set_pc t W_check
               (s\<lparr>channels := (channels s)
                     (chan f := Ready (callable f (int (w_idx (workers s ! t))))),
                  executed := executed s @ [(w_idx (workers s ! t), f)]\<rparr>))
         | W_check \<Rightarrow>
             Some (set_pc t (if atomics s (w_flag (workers s ! t)) then W_exit else W_pop) s)
         | W_idle \<Rightarrow>
             Some (wait_pred k t (update_tracker (s\<lparr>nWaiting := nWaiting s + 1\<rparr>)))
         | W_notified \<Rightarrow> Some (wait_pred k t s)
         | W_waiting \<Rightarrow> None
         | W_exit \<Rightarrow> None))"

subsection \<open>\<^verbatim>\<open>push\<close>\<close>

text \<open>
  The call of \<^verbatim>\<open>thread_pool::push\<close> with callable \<open>g\<close>: the packaged task and the
  function object are made, and a thread is inside the call. The result is the future
  (the channel it reads), the thread, and the new state.
\<close>

definition pool_push ::
  "(int \<Rightarrow> 'e + 'v) \<Rightarrow> ('e, 'v) system \<Rightarrow> nat \<times> nat \<times> ('e, 'v) system" where
  "pool_push g s =
     (n_chans s, length (clients s),
      s\<lparr>n_chans := Suc (n_chans s),
        clients := clients s @ [C_enter (Task (n_chans s) g)]\<rparr>)"

text \<open>What the future holds.\<close>

definition future_get :: "('e, 'v) system \<Rightarrow> nat \<Rightarrow> ('e + 'v) shared_state" where
  "future_get s fut = channels s fut"

definition set_cpc :: "nat \<Rightarrow> ('e, 'v) cpc \<Rightarrow> ('e, 'v) system \<Rightarrow> ('e, 'v) system" where
  "set_cpc c pc s = s\<lparr>clients := (clients s)[c := pc]\<rparr>"

text \<open>One step of the thread \<open>c\<close> inside \<^verbatim>\<open>thread_pool::push\<close>.\<close>

definition client_step :: "nat \<Rightarrow> nat \<Rightarrow> ('e, 'v) system \<Rightarrow> ('e, 'v) system option" where
  "client_step k c s =
     (if length (clients s) \<le> c then None
      else
        (case clients s ! c of
           C_enter f \<Rightarrow>
             (case push c f (queue s) of
                (None, Q) \<Rightarrow> Some (set_cpc c (C_blocked f) (s\<lparr>queue := Q\<rparr>))
              | (Some r, Q) \<Rightarrow> Some (set_cpc c C_pushed (s\<lparr>queue := Q\<rparr>)))
         | C_blocked f \<Rightarrow> None
         | C_notified f \<Rightarrow>
             Some (set_cpc c C_pushed (s\<lparr>queue := snd (push_resume f (queue s))\<rparr>))
         | C_pushed \<Rightarrow>
             (case notify_one k (pool_cv s) of
                (None, ws) \<Rightarrow> Some (set_cpc c C_done s)
              | (Some t, ws) \<Rightarrow>
                  Some (set_cpc c C_done
                    (s\<lparr>pool_cv := ws, workers := wake_worker t (workers s)\<rparr>)))
         | C_done \<Rightarrow> None))"

subsection \<open>\<^verbatim>\<open>stop\<close>\<close>

text \<open>
  One pass of the loop of \<^verbatim>\<open>clear_queue\<close>; \<open>None\<close> when the loop ends. \<^verbatim>\<open>delete _f\<close>
  destroys the function object and with it the last pointer to the packaged task (the
  pointer that \<^verbatim>\<open>push\<close> holds is gone when \<^verbatim>\<open>push\<close> has returned, and the future is
  in the caller's hands only then), so the shared state is abandoned.
\<close>

definition clear_queue_step :: "nat \<Rightarrow> ('e, 'v) system \<Rightarrow> ('e, 'v) system option" where
  "clear_queue_step k s =
     (case queue_pop k s of
        (Some f, s1) \<Rightarrow>
          Some (s1\<lparr>discarded := discarded s1 @ [f],
                   channels := (channels s1)(chan f := Broken_promise)\<rparr>)
      | (None, s1) \<Rightarrow> None)"

text \<open>The caller enters \<^verbatim>\<open>stop(isWait)\<close>.\<close>

definition call_stop :: "bool \<Rightarrow> ('e, 'v) system \<Rightarrow> ('e, 'v) system" where
  "call_stop isWait s = s\<lparr>mgr := M_stop isWait\<rparr>"

text \<open>
  One step of the caller of \<^verbatim>\<open>stop\<close>. \<open>None\<close>: it is outside of a call, it is
  suspended in \<^verbatim>\<open>join\<close> because the thread has not returned, or a vector is read
  outside of its bounds.
\<close>

definition mgr_step :: "nat \<Rightarrow> ('e, 'v) system \<Rightarrow> ('e, 'v) system option" where
  "mgr_step k s =
     (case mgr s of
        M_idle \<Rightarrow> None
      | M_stop isWait \<Rightarrow>
          (if \<not> isWait then
             (if isStop s then Some (s\<lparr>mgr := M_idle\<rparr>)
              else Some (s\<lparr>isStop := True, mgr := M_flags 0 (length (threads s))\<rparr>))
           else
             (if isDone s \<or> isStop s then Some (s\<lparr>mgr := M_idle\<rparr>)
              else Some (s\<lparr>isDone := True, mgr := M_notify\<rparr>)))
      | M_flags i n \<Rightarrow>
          (if i < n then
             (if i < length (flags s)
              then Some (s\<lparr>atomics := (atomics s)(flags s ! i := True),
                           mgr := M_flags (Suc i) n\<rparr>)
              else None)
           else Some (s\<lparr>mgr := M_clear1\<rparr>))
      | M_clear1 \<Rightarrow>
          (case clear_queue_step k s of
             Some s1 \<Rightarrow> Some s1
           | None \<Rightarrow> Some (s\<lparr>mgr := M_notify\<rparr>))
      | M_notify \<Rightarrow>
          Some (s\<lparr>workers := notify_all (pool_cv s) (workers s), pool_cv := [],
                  mgr := M_join 0\<rparr>)
      | M_join i \<Rightarrow>
          (if i < length (threads s) then
             (if length (workers s) \<le> threads s ! i then None
              else if w_handle (workers s ! (threads s ! i)) = Joinable then
                (if w_pc (workers s ! (threads s ! i)) = W_exit
                 then Some (s\<lparr>workers := (workers s)[threads s ! i :=
                                 (workers s ! (threads s ! i))\<lparr>w_handle := Joined\<rparr>],
                              mgr := M_join (Suc i)\<rparr>)
                 else None)
              else Some (s\<lparr>mgr := M_join (Suc i)\<rparr>))
           else Some (s\<lparr>mgr := M_clear2\<rparr>))
      | M_clear2 \<Rightarrow>
          (case clear_queue_step k s of
             Some s1 \<Rightarrow> Some s1
           | None \<Rightarrow> Some (s\<lparr>mgr := M_finish\<rparr>))
      | M_finish \<Rightarrow> Some (s\<lparr>threads := [], flags := [], mgr := M_idle\<rparr>))"

subsection \<open>Schedules\<close>

text \<open>
  An event names the thread that takes the next step and the choice its
  \<^verbatim>\<open>notify_one\<close> makes. A schedule is a list of events; it runs as long as every
  event names a thread that has a step. Once the tracker has written outside of its
  table no thread has a step: what the program does then is not defined.
\<close>

datatype event = Worker nat nat | Manager nat | Client nat nat

fun step :: "event \<Rightarrow> ('e, 'v) system \<Rightarrow> ('e, 'v) system option" where
  "step (Worker t k) s = (if tracker s = None then None else worker_step k t s)"
| "step (Manager k) s = (if tracker s = None then None else mgr_step k s)"
| "step (Client c k) s = (if tracker s = None then None else client_step k c s)"

fun run :: "event list \<Rightarrow> ('e, 'v) system \<Rightarrow> ('e, 'v) system option" where
  "run [] s = Some s"
| "run (e # es) s = (case step e s of None \<Rightarrow> None | Some s1 \<Rightarrow> run es s1)"


section \<open>Concrete pools\<close>

text \<open>
  Two callables, one that raises and one that returns, and the pools on which the
  theorems below are evaluated. Failures are strings and values are integers there.
\<close>

definition boom :: "int \<Rightarrow> string + int" where
  "boom i = Inl ''boom''"

definition incr :: "int \<Rightarrow> string + int" where
  "incr i = Inr (i + 1)"

definition the_state :: "('e, 'v) system option \<Rightarrow> ('e, 'v) system" where
  "the_state r = (case r of Some s \<Rightarrow> s | None \<Rightarrow> init)"

definition submit :: "(int \<Rightarrow> 'e + 'v) \<Rightarrow> ('e, 'v) system \<Rightarrow> ('e, 'v) system" where
  "submit g s = snd (snd (pool_push g s))"

text \<open>\<^verbatim>\<open>thread_pool p(1)\<close>, and the same pool with three calls of \<^verbatim>\<open>push\<close> under way.\<close>

definition one_worker :: "(string, int) system" where
  "one_worker = the_state (thread_pool 1)"

definition three_pushes :: "(string, int) system" where
  "three_pushes = submit incr (submit boom (submit incr one_worker))"

text \<open>
  \<^verbatim>\<open>thread_pool p(0)\<close> after \<^verbatim>\<open>p.stop(true)\<close> has returned, then after
  \<^verbatim>\<open>p.stop(false)\<close> has returned as well, then with a \<^verbatim>\<open>push\<close> that has stored its
  task.
\<close>

definition drained :: "(string, int) system" where
  "drained = the_state (run (replicate 5 (Manager 0))
     (call_stop True (the_state (thread_pool 0))))"

definition drained_stopped :: "(string, int) system" where
  "drained_stopped = the_state (run (replicate 7 (Manager 0)) (call_stop False drained))"

definition pushed_after_stop :: "(string, int) system" where
  "pushed_after_stop = the_state (run [Client 0 0] (submit incr drained_stopped))"

text \<open>
  \<^verbatim>\<open>thread_pool p(1)\<close> whose worker has claimed the first task, with another task
  stored behind it, after \<^verbatim>\<open>p.resize(0)\<close>: the worker is detached and its flag is set.
\<close>

definition shrunk_busy :: "(string, int) system" where
  "shrunk_busy = the_state (resize 0
     (the_state (run [Client 0 0, Worker 0 0, Client 2 0] three_pushes)))"

text \<open>
  \<^verbatim>\<open>thread_pool p(1)\<close> whose worker has run the first task and claimed the second,
  the one that raises, while the third waits in the queue.
\<close>

definition boom_claimed :: "(string, int) system" where
  "boom_claimed = the_state (run [Client 0 0, Client 1 0, Worker 0 0, Worker 0 0, Worker 0 0,
     Client 1 0, Worker 0 0, Client 2 0] three_pushes)"

text \<open>
  \<^verbatim>\<open>thread_pool p(1)\<close> with two calls of \<^verbatim>\<open>push\<close> under way, and the same pool
  once both calls have returned: the worker has claimed the first task, the second is
  in the queue. The two schedules are runs of \<^verbatim>\<open>p.stop(true)\<close> and of
  \<^verbatim>\<open>p.stop(false)\<close> on it, up to the return of the call.
\<close>

definition two_pushes :: "(string, int) system" where
  "two_pushes = submit boom (submit incr one_worker)"

definition busy :: "(string, int) system" where
  "busy = the_state (run [Client 0 0, Worker 0 0, Client 1 0, Client 0 0, Client 1 0] two_pushes)"

definition graceful_schedule :: "event list" where
  "graceful_schedule = [Manager 0, Manager 0, Worker 0 0, Worker 0 0, Worker 0 0, Worker 0 0,
     Worker 0 0, Worker 0 0, Worker 0 0, Manager 0, Manager 0, Manager 0, Manager 0]"

definition forceful_schedule :: "event list" where
  "forceful_schedule = [Manager 0, Manager 0, Manager 0, Manager 0, Manager 0, Manager 0,
     Worker 0 0, Worker 0 0, Manager 0, Manager 0, Manager 0, Manager 0]"

text \<open>
  \<^verbatim>\<open>thread_pool p(1)\<close> whose worker has found the queue empty and is about to lock
  the mutex of the wait, after one \<^verbatim>\<open>push\<close> has returned: one task is queued and no
  thread is inside \<^verbatim>\<open>push\<close>. The schedule is a run of \<^verbatim>\<open>p.stop(false)\<close> on it, up to
  the return of the call, in which the worker comes to its wait when the caller has set
  the stopping flag and the worker's flag.
\<close>

definition idle_queued :: "(string, int) system" where
  "idle_queued = the_state (run [Worker 0 0, Client 0 0, Client 0 0] (submit incr one_worker))"

definition late_pop_schedule :: "event list" where
  "late_pop_schedule = [Manager 0, Manager 0, Manager 0, Worker 0 0, Manager 0, Manager 0,
     Worker 0 0, Worker 0 0, Manager 0, Manager 0, Manager 0, Manager 0]"

text \<open>
  \<^verbatim>\<open>thread_pool p(1)\<close> whose worker has claimed the only task that was pushed, one
  that raises; the \<^verbatim>\<open>push\<close> has returned and the queue is empty.
\<close>

definition boom_alone :: "(string, int) system" where
  "boom_alone = the_state (run [Client 0 0, Worker 0 0, Client 0 0] (submit boom one_worker))"

text \<open>\<^verbatim>\<open>thread_pool p(0)\<close> after one \<^verbatim>\<open>push\<close> has returned: no worker, one task queued.\<close>

definition no_workers :: "(string, int) system" where
  "no_workers = the_state (run [Client 0 0, Client 0 0] (submit incr (the_state (thread_pool 0))))"

section \<open>A call of \<^verbatim>\<open>stop\<close> among running workers\<close>

text \<open>The place where worker \<open>t\<close> is, and the value of its flag.\<close>

definition pc_of :: "('e, 'v) system \<Rightarrow> nat \<Rightarrow> ('e, 'v) wpc" where
  "pc_of s t = w_pc (workers s ! t)"

definition flag_of :: "('e, 'v) system \<Rightarrow> nat \<Rightarrow> bool" where
  "flag_of s t = atomics s (w_flag (workers s ! t))"



text \<open>
  The pools on which \<^verbatim>\<open>stop\<close> is studied: a pool between two calls of its managing
  thread, on which \<^verbatim>\<open>stop(false)\<close> has not been called. The stopping flag is not
  set; a pool that has drained has no records left; the two vectors have one length,
  and record \<open>j\<close> holds a thread that was started and the flag that this thread
  holds; a thread that is suspended in the wait is in the wait set; a thread of the
  pool is joinable, its flag is not set and it has not returned (it returns only when
  its flag or the draining flag is set); a thread that is not in the pool any more had
  its flag set by the \<^verbatim>\<open>resize\<close> that removed it, or has returned. Every pool that
  a constructor made and on which \<^verbatim>\<open>stop\<close> was not called is such a pool, whatever
  its threads, the calls of \<^verbatim>\<open>push\<close> and the calls of \<^verbatim>\<open>resize\<close> have done
  (lemma \<open>pool_ok_life\<close>).
\<close>

definition pool_ok :: "('e, 'v) system \<Rightarrow> bool" where
  "pool_ok s \<longleftrightarrow>
     \<not> isStop s \<and> (isDone s \<longrightarrow> threads s = []) \<and> mgr s = M_idle \<and>
     length (flags s) = length (threads s) \<and>
     (\<forall>j<length (threads s). threads s ! j < length (workers s) \<and>
        flags s ! j = w_flag (workers s ! (threads s ! j))) \<and>
     (\<forall>t<length (workers s).
        (pc_of s t = W_waiting \<longrightarrow> t \<in> set (pool_cv s)) \<and>
        (if t \<in> set (threads s)
         then w_handle (workers s ! t) = Joinable \<and> \<not> flag_of s t \<and> pc_of s t \<noteq> W_exit
         else flag_of s t \<or> pc_of s t = W_exit))"

text \<open>
  The workers that are inside the wait, between \<^verbatim>\<open>++this->nWaiting\<close> and
  \<^verbatim>\<open>--this->nWaiting\<close>, and what the pool keeps about its tracker as long as the tracker
  stays inside its table: \<^verbatim>\<open>nWaiting\<close> is the number of these workers, and the two
  values of the tracker are former values of \<^verbatim>\<open>nWaiting\<close>, so they are at most the
  number of threads that the pool has started. Every pool that a constructor made and
  that has started fewer than 64 threads is such a pool (lemma \<open>tracker_ok_life\<close>). With
  64 threads \<^verbatim>\<open>nWaiting\<close> can reach 64, and the second change of \<^verbatim>\<open>nWaiting\<close> after
  that makes the tracker write to \<^verbatim>\<open>valueTimes[64]\<close>. \<open>values_below n\<close>: the tracker has
  not left its table, and its two values are between 0 and \<open>n\<close>.
\<close>

fun waits :: "('e, 'v) wpc \<Rightarrow> nat" where
  "waits W_waiting = 1"
| "waits W_notified = 1"
| "waits pc = 0"

definition waiters :: "('e, 'v) system \<Rightarrow> nat" where
  "waiters s = sum_list (map (\<lambda>w. waits (w_pc w)) (workers s))"

definition values_below :: "int \<Rightarrow> ValueTracker option \<Rightarrow> bool" where
  "values_below n tr \<longleftrightarrow>
     (case tr of
        None \<Rightarrow> False
      | Some T \<Rightarrow>
          0 \<le> previousValue T \<and> previousValue T \<le> n \<and>
          0 \<le> currentValue T \<and> currentValue T \<le> n)"

definition tracker_ok :: "('e, 'v) system \<Rightarrow> bool" where
  "tracker_ok s \<longleftrightarrow>
     nWaiting s = int (waiters s) \<and> values_below (int (length (workers s))) (tracker s)"




subsection \<open>What a run of \<^verbatim>\<open>stop\<close> keeps\<close>




text \<open>
  One step of a worker, by cases: what it leaves alone (\<open>wframe\<close>), and where it
  goes from where with which effect (\<open>wcase\<close>); \<open>qframe\<close> is what a pop leaves alone.
\<close>

definition wframe :: "('e, 'v) system \<Rightarrow> ('e, 'v) system \<Rightarrow> bool" where
  "wframe s s' \<longleftrightarrow> threads s' = threads s \<and> flags s' = flags s \<and> isDone s' = isDone s \<and>
     isStop s' = isStop s \<and> atomics s' = atomics s \<and> mgr s' = mgr s \<and>
     discarded s' = discarded s"

definition qframe :: "('e, 'v) system \<Rightarrow> ('e, 'v) system \<Rightarrow> bool" where
  "qframe s s' \<longleftrightarrow> threads s' = threads s \<and> flags s' = flags s \<and> isDone s' = isDone s \<and>
     isStop s' = isStop s \<and> atomics s' = atomics s \<and> mgr s' = mgr s \<and>
     discarded s' = discarded s \<and> executed s' = executed s \<and> workers s' = workers s \<and>
     pool_cv s' = pool_cv s"

definition wcase :: "('e, 'v) system \<Rightarrow> nat \<Rightarrow> ('e, 'v) wpc \<Rightarrow> ('e, 'v) system \<Rightarrow> bool" where
  "wcase s t pc' s' \<longleftrightarrow>
     (pc_of s t = W_pop \<and> q (queue s) = [] \<and> pc' = W_idle \<and> q (queue s') = [] \<and>
        executed s' = executed s \<and> pool_cv s' = pool_cv s)
   \<or> (\<exists>f. (pc_of s t = W_pop \<or> pc_of s t = W_idle \<or> pc_of s t = W_notified) \<and>
        q (queue s) = f # q (queue s') \<and> pc' = W_run f \<and>
        executed s' = executed s \<and> pool_cv s' = pool_cv s)
   \<or> (\<exists>f. pc_of s t = W_run f \<and> pc' = W_check \<and> q (queue s') = q (queue s) \<and>
        executed s' = executed s @ [(w_idx (workers s ! t), f)] \<and> pool_cv s' = pool_cv s)
   \<or> (pc_of s t = W_check \<and> pc' = (if flag_of s t then W_exit else W_pop) \<and>
        q (queue s') = q (queue s) \<and> executed s' = executed s \<and> pool_cv s' = pool_cv s)
   \<or> ((pc_of s t = W_idle \<or> pc_of s t = W_notified) \<and> q (queue s) = [] \<and>
        q (queue s') = [] \<and> (isDone s \<or> flag_of s t) \<and> pc' = W_exit \<and>
        executed s' = executed s \<and> pool_cv s' = pool_cv s)
   \<or> ((pc_of s t = W_idle \<or> pc_of s t = W_notified) \<and> q (queue s) = [] \<and>
        q (queue s') = [] \<and> \<not> isDone s \<and> \<not> flag_of s t \<and> pc' = W_waiting \<and>
        executed s' = executed s \<and> pool_cv s' = pool_cv s @ [t])"








subsection \<open>The pools that a program reaches before it calls \<^verbatim>\<open>stop\<close>\<close>

text \<open>
  What happens to a pool between its construction and the first call of \<^verbatim>\<open>stop\<close>:
  a thread takes a step, \<^verbatim>\<open>push\<close> is called, or the managing thread calls
  \<^verbatim>\<open>resize\<close>. A step of the caller of \<^verbatim>\<open>stop\<close> has no result here, since the caller
  is outside of a call.
\<close>

datatype ('e, 'v) act = Thread event | Push "int \<Rightarrow> 'e + 'v" | Resize "32 word"

fun act_step :: "('e, 'v) act \<Rightarrow> ('e, 'v) system \<Rightarrow> ('e, 'v) system option" where
  "act_step (Thread e) s = step e s"
| "act_step (Push g) s = (if tracker s = None then None else Some (submit g s))"
| "act_step (Resize n) s =
     (if tracker s = None then None else if mgr s = M_idle then resize n s else None)"

fun life :: "('e, 'v) act list \<Rightarrow> ('e, 'v) system \<Rightarrow> ('e, 'v) system option" where
  "life [] s = Some s"
| "life (x # xs) s = (case act_step x s of None \<Rightarrow> None | Some s1 \<Rightarrow> life xs s1)"

text \<open>
  What such a pool keeps in addition to \<open>pool_ok\<close>: it is not draining, the flag of
  thread \<open>t\<close> is the \<open>t\<close>-th flag that was made, and no thread has two records.
\<close>

definition fresh_ok :: "('e, 'v) system \<Rightarrow> bool" where
  "fresh_ok s \<longleftrightarrow> pool_ok s \<and> \<not> isDone s \<and> n_atomics s = length (workers s) \<and>
     (\<forall>t<length (workers s). w_flag (workers s ! t) = t) \<and> distinct (threads s)"

section \<open>Lemmas\<close>

lemmas model_defs = thread_pool_def resize_def init_def Queue_init_def set_limit_def
  set_thread_def detach_thread_def pool_push_def client_step_def push_def push_resume_def
  set_cpc_def worker_step_def queue_pop_def pop_def notify_one_def wake_client_def set_pc_def
  wait_pred_def mgr_step_def clear_queue_step_def call_stop_def notify_all_def
  wake_worker_def thread_pool_default_def pool_size_def future_get_def
  update_tracker_def updateValue_def ValueTracker_init_def

lemmas pool_defs = the_state_def submit_def one_worker_def three_pushes_def drained_def
  drained_stopped_def pushed_after_stop_def boom_def incr_def shrunk_busy_def
  boom_claimed_def two_pushes_def busy_def graceful_schedule_def forceful_schedule_def
  no_workers_def idle_queued_def late_pop_schedule_def boom_alone_def

lemma mset_take_nth_drop:
  "j < length ws \<Longrightarrow> mset ws = add_mset (ws ! j) (mset (take j ws @ drop (Suc j) ws))"
proof -
  assume "j < length ws"
  then have "ws = take j ws @ ws ! j # drop (Suc j) ws" by (rule id_take_nth_drop)
  then have "mset ws = mset (take j ws @ ws ! j # drop (Suc j) ws)" by simp
  then show ?thesis by simp
qed

lemma notify_one_Nil: "notify_one k [] = (None, [])"
  by (simp add: notify_one_def)

lemma notify_one_mset:
  "ws \<noteq> [] \<Longrightarrow> \<exists>c ws'. notify_one k ws = (Some c, ws') \<and> mset ws = add_mset c (mset ws')"
  by (simp add: notify_one_def mset_take_nth_drop del: mset_append)

lemma sint_of_nat_small: "m < 2 ^ 31 \<Longrightarrow> sint (word_of_nat m :: 32 word) = int m"
  by (simp add: signed_of_nat signed_take_bit_int_eq_self)

lemma fold_set_thread_workers:
  "\<exists>news. workers (fold set_thread js s) = workers s @ news \<and> map w_idx news = js \<and>
     (\<forall>w \<in> set news. w_pc w = W_pop \<and> w_handle w = Joinable)"
proof (induction js arbitrary: s)
  case Nil
  then show ?case by simp
next
  case (Cons j js)
  from Cons.IH [of "set_thread j s"] obtain news where
    n: "workers (fold set_thread js (set_thread j s)) = workers (set_thread j s) @ news"
       "map w_idx news = js" "\<forall>w \<in> set news. w_pc w = W_pop \<and> w_handle w = Joinable"
    by blast
  let ?w = "\<lparr>w_idx = j, w_flag = n_atomics s, w_pc = W_pop, w_handle = Joinable\<rparr>
            :: ('a, 'b) worker"
  have w: "workers (set_thread j s) = workers s @ [?w]" by (simp add: set_thread_def)
  show ?case
    by (rule exI [of _ "?w # news"]) (use n w in simp)
qed

lemma fold_set_thread_threads:
  "threads (fold set_thread js s) =
     threads s @ [length (workers s) ..< length (workers s) + length js]"
proof (induction js arbitrary: s)
  case Nil
  then show ?case by simp
next
  case (Cons j js)
  have "[length (workers s) ..< length (workers s) + length (j # js)] =
        length (workers s) #
          [Suc (length (workers s)) ..< Suc (length (workers s)) + length js]"
    by (simp add: upt_rec)
  moreover have "threads (set_thread j s) = threads s @ [length (workers s)]"
    "length (workers (set_thread j s)) = Suc (length (workers s))"
    by (simp_all add: set_thread_def)
  ultimately show ?case using Cons.IH [of "set_thread j s"] by simp
qed

lemma fold_set_thread_frame:
  "queue (fold set_thread js s) = queue s \<and>
   length (flags (fold set_thread js s)) = length (flags s) + length js"
proof (induction js arbitrary: s)
  case Nil
  then show ?case by simp
next
  case (Cons j js)
  have "queue (set_thread j s) = queue s"
    "length (flags (set_thread j s)) = Suc (length (flags s))"
    by (simp_all add: set_thread_def)
  then show ?case using Cons.IH [of "set_thread j s"] by simp
qed

lemma fold_detach_frame:
  "threads (fold detach_thread js s) = threads s \<and>
   flags (fold detach_thread js s) = flags s \<and>
   length (workers (fold detach_thread js s)) = length (workers s)"
proof (induction js arbitrary: s)
  case Nil
  then show ?case by simp
next
  case (Cons j js)
  have "threads (detach_thread j s) = threads s" "flags (detach_thread j s) = flags s"
    "length (workers (detach_thread j s)) = length (workers s)"
    by (simp_all add: detach_thread_def)
  then show ?case using Cons.IH [of "detach_thread j s"] by simp
qed

lemma length_notify_all: "length (notify_all ts ws) = length ws"
  unfolding notify_all_def by (induction ts arbitrary: ws) (simp_all add: wake_worker_def)

lemma resize_grow:
  assumes "0 \<le> sint n" "\<not> isStop s" "\<not> isDone s" "length (threads s) < 2 ^ 31"
    and "length (flags s) = length (threads s)" "length (threads s) \<le> nat (sint n)"
  shows "resize n s = Some (fold set_thread [length (threads s) ..< nat (sint n)] s)"
proof -
  have "sint (word_of_nat (length (threads s)) :: 32 word) = int (length (threads s))"
    using assms(4) by (rule sint_of_nat_small)
  then show ?thesis using assms by (simp add: resize_def Let_def)
qed

lemma resize_shrink:
  assumes "0 \<le> sint n" "\<not> isStop s" "\<not> isDone s" "length (threads s) < 2 ^ 31"
    and "length (flags s) = length (threads s)" "nat (sint n) < length (threads s)"
  shows "\<exists>s1 ws. threads s1 = threads s \<and> flags s1 = flags s \<and>
           length ws = length (workers s) \<and>
           resize n s = Some (s1\<lparr>workers := ws, pool_cv := [],
             threads := take (nat (sint n)) (threads s),
             flags := take (nat (sint n)) (flags s)\<rparr>)"
proof -
  let ?s1 = "fold detach_thread (rev [nat (sint n) ..< length (threads s)]) s"
  have old: "sint (word_of_nat (length (threads s)) :: 32 word) = int (length (threads s))"
    using assms(4) by (rule sint_of_nat_small)
  have fr: "threads ?s1 = threads s" "flags ?s1 = flags s"
    "length (workers ?s1) = length (workers s)"
    using fold_detach_frame [of "rev [nat (sint n) ..< length (threads s)]" s] by simp_all
  have "resize n s = Some (?s1\<lparr>workers := notify_all (pool_cv ?s1) (workers ?s1),
      pool_cv := [], threads := take (nat (sint n)) (threads s),
      flags := take (nat (sint n)) (flags s)\<rparr>)"
    using assms old fr by (simp add: resize_def Let_def)
  moreover have "length (notify_all (pool_cv ?s1) (workers ?s1)) = length (workers s)"
    using fr by (simp add: length_notify_all)
  ultimately show ?thesis using fr by blast
qed

subsection \<open>Steps of the workers and of the caller of \<^verbatim>\<open>stop\<close>\<close>

lemma sum_list_map_update:
  fixes f :: "'a \<Rightarrow> 'b::comm_monoid_add"
  shows "t < length ws \<Longrightarrow>
    sum_list (map f (ws[t := w])) + f (ws ! t) = sum_list (map f ws) + f w"
proof (induction ws arbitrary: t)
  case Nil
  then show ?case by simp
next
  case (Cons a ws)
  show ?case
  proof (cases t)
    case 0
    then show ?thesis by (simp add: ac_simps)
  next
    case (Suc t')
    with Cons.prems have "t' < length ws" by simp
    from Cons.IH [OF this]
    have "f a + (sum_list (map f (ws[t' := w])) + f (ws ! t')) = f a + (sum_list (map f ws) + f w)"
      by simp
    with Suc show ?thesis by (simp add: add.assoc)
  qed
qed

lemma nth_update_proj:
  assumes "f w = f (ws ! t)"
  shows "f (ws[t := w] ! i) = f (ws ! i)"
proof (cases "t < length ws")
  case True
  with assms show ?thesis by (cases "i = t") simp_all
next
  case False
  then have "length ws \<le> t" by simp
  then show ?thesis by (simp add: list_update_beyond)
qed

lemma queue_pop_Nil: "q (queue s) = [] \<Longrightarrow> queue_pop k s = (None, s)"
  by (simp add: queue_pop_def pop_def wake_client_def)

lemma queue_pop_Cons:
  "q (queue s) = f # rest \<Longrightarrow>
   \<exists>s1. queue_pop k s = (Some f, s1) \<and> q (queue s1) = rest \<and> qframe s s1"
  by (simp add: queue_pop_def pop_def qframe_def)

lemma worker_step_cases:
  assumes "worker_step k t s = Some s'"
  shows "t < length (workers s) \<and> wframe s s' \<and>
    (\<exists>pc'. workers s' = (workers s)[t := (workers s ! t)\<lparr>w_pc := pc'\<rparr>] \<and> wcase s t pc' s')"
proof -
  from assms have t: "t < length (workers s)"
    by (simp add: worker_step_def split: if_splits)
  let ?s = "update_tracker (s\<lparr>nWaiting := nWaiting s + 1\<rparr>)"
  show ?thesis
  proof (cases "q (queue s)")
    case Nil
    have qp: "queue_pop k s = (None, s)" "queue_pop k ?s = (None, ?s)"
      using Nil by (simp_all add: queue_pop_Nil update_tracker_def)
    show ?thesis
      using assms t Nil qp
      by (cases "w_pc (workers s ! t)")
        (auto simp: worker_step_def wait_pred_def set_pc_def wframe_def wcase_def pc_of_def
           flag_of_def update_tracker_def split: if_splits)
  next
    case (Cons f rest)
    from queue_pop_Cons [OF Cons, of k] obtain s1 where
      qp: "queue_pop k s = (Some f, s1)" "q (queue s1) = rest" "qframe s s1" by blast
    have "q (queue ?s) = f # rest" using Cons by (simp add: update_tracker_def)
    from queue_pop_Cons [OF this, of k] obtain s2 where
      qp': "queue_pop k ?s = (Some f, s2)" "q (queue s2) = rest" "qframe ?s s2"
      by blast
    show ?thesis
      using assms t Cons qp qp'
      by (cases "w_pc (workers s ! t)")
        (auto simp: worker_step_def wait_pred_def set_pc_def wframe_def wcase_def pc_of_def
           flag_of_def qframe_def update_tracker_def split: if_splits)
  qed
qed



lemma wake_worker_nth:
  "wake_worker c ws ! t =
     (if t = c \<and> t < length ws \<and> w_pc (ws ! t) = W_waiting
      then (ws ! t)\<lparr>w_pc := W_notified\<rparr> else ws ! t)"
  by (auto simp: wake_worker_def nth_list_update)

lemma length_wake_worker: "length (wake_worker c ws) = length ws"
  by (simp add: wake_worker_def)

lemma notify_all_nth:
  "notify_all cs ws ! t =
     (if t \<in> set cs \<and> t < length ws \<and> w_pc (ws ! t) = W_waiting
      then (ws ! t)\<lparr>w_pc := W_notified\<rparr> else ws ! t)"
proof (induction cs arbitrary: ws)
  case Nil
  then show ?case by (simp add: notify_all_def)
next
  case (Cons c cs)
  have "notify_all (c # cs) ws = notify_all cs (wake_worker c ws)"
    by (simp add: notify_all_def)
  then show ?case
    using Cons.IH [of "wake_worker c ws"]
    by (auto simp: wake_worker_nth length_wake_worker)
qed








lemma wstep_nth:
  assumes "workers s' = (workers s)[t := (workers s ! t)\<lparr>w_pc := pc'\<rparr>]" "t < length (workers s)"
  shows "length (workers s') = length (workers s)"
    and "w_flag (workers s' ! i) = w_flag (workers s ! i)"
    and "w_handle (workers s' ! i) = w_handle (workers s ! i)"
    and "pc_of s' i = (if i = t then pc' else pc_of s i)"
  using assms by (simp_all add: nth_update_proj pc_of_def nth_list_update)

lemma wcase_not_exit: "wcase s t pc' s' \<Longrightarrow> pc_of s t \<noteq> W_exit"
  by (auto simp: wcase_def)

lemma wcase_waiting:
  "wcase s t pc' s' \<Longrightarrow>
     set (pool_cv s) \<subseteq> set (pool_cv s') \<and>
     (pc' = W_waiting \<longrightarrow> t \<in> set (pool_cv s') \<and> \<not> isDone s \<and> \<not> flag_of s t)"
  by (auto simp: wcase_def split: if_splits)












lemma notify_all_pcs:
  assumes "\<forall>t<length ws. w_pc (ws ! t) = W_waiting \<longrightarrow> t \<in> set cs"
  shows "length (notify_all cs ws) = length ws"
    and "w_flag (notify_all cs ws ! t) = w_flag (ws ! t)"
    and "w_handle (notify_all cs ws ! t) = w_handle (ws ! t)"
    and "t < length ws \<Longrightarrow> w_pc (notify_all cs ws ! t) \<noteq> W_waiting"
    and "w_pc (ws ! t) = W_exit \<Longrightarrow> w_pc (notify_all cs ws ! t) = W_exit"
  using assms by (auto simp: length_notify_all notify_all_nth)





lemma wcase_exit:
  "wcase s t pc' s' \<Longrightarrow> pc' = W_exit \<Longrightarrow>
     flag_of s t \<or> (isDone s \<and> q (queue s') = [])"
  by (auto simp: wcase_def split: if_splits)
























subsection \<open>Every pool that has not been stopped satisfies \<open>pool_ok\<close>\<close>

lemma fresh_ok_flags:
  assumes "fresh_ok s"
  shows "flags s = threads s" and "\<forall>t\<in>set (threads s). t < length (workers s)"
proof -
  from assms have p: "pool_ok s" and w: "\<forall>t<length (workers s). w_flag (workers s ! t) = t"
    by (simp_all add: fresh_ok_def)
  from p have l: "length (flags s) = length (threads s)"
    and j: "\<forall>j<length (threads s). threads s ! j < length (workers s) \<and>
        flags s ! j = w_flag (workers s ! (threads s ! j))"
    by (simp_all add: pool_ok_def)
  show "flags s = threads s"
    using l j w by (intro nth_equalityI) auto
  show "\<forall>t\<in>set (threads s). t < length (workers s)"
    using j by (auto simp: in_set_conv_nth)
qed

lemma fresh_ok_init: "fresh_ok init"
  by (simp add: fresh_ok_def pool_ok_def init_def)

lemma fresh_ok_set_thread:
  assumes "fresh_ok s"
  shows "fresh_ok (set_thread i s)"
proof -
  note f = fresh_ok_flags [OF assms]
  from assms have p: "pool_ok s" and nd: "\<not> isDone s" and na: "n_atomics s = length (workers s)"
    and w: "\<forall>t<length (workers s). w_flag (workers s ! t) = t" and d: "distinct (threads s)"
    by (simp_all add: fresh_ok_def)
  let ?n = "length (workers s)"
  let ?s = "set_thread i s"
  have new: "?n \<notin> set (threads s)" using f(2) by auto
  have s: "threads ?s = threads s @ [?n]" "flags ?s = flags s @ [?n]"
    "atomics ?s = (atomics s)(?n := False)" "n_atomics ?s = Suc ?n"
    "workers ?s = workers s @ [\<lparr>w_idx = i, w_flag = ?n, w_pc = W_pop, w_handle = Joinable\<rparr>]"
    "isStop ?s = isStop s" "isDone ?s = isDone s" "mgr ?s = mgr s" "pool_cv ?s = pool_cv s"
    by (simp_all add: set_thread_def na)
  from p have o: "\<not> isStop s" "mgr s = M_idle" "length (flags s) = length (threads s)"
    "\<forall>t<?n. (pc_of s t = W_waiting \<longrightarrow> t \<in> set (pool_cv s)) \<and>
        (if t \<in> set (threads s)
         then w_handle (workers s ! t) = Joinable \<and> \<not> flag_of s t \<and> pc_of s t \<noteq> W_exit
         else flag_of s t \<or> pc_of s t = W_exit)"
    by (simp_all add: pool_ok_def)
  have old: "pc_of ?s t = pc_of s t" "flag_of ?s t = flag_of s t"
    "w_handle (workers ?s ! t) = w_handle (workers s ! t)" "w_flag (workers ?s ! t) = t"
    if "t < ?n" for t
    using that w by (simp_all add: pc_of_def flag_of_def s nth_append)
  have nw: "pc_of ?s ?n = W_pop" "\<not> flag_of ?s ?n" "w_handle (workers ?s ! ?n) = Joinable"
    "w_flag (workers ?s ! ?n) = ?n"
    by (simp_all add: pc_of_def flag_of_def s)
  have 1: "\<forall>j<length (threads ?s). threads ?s ! j < length (workers ?s) \<and>
        flags ?s ! j = w_flag (workers ?s ! (threads ?s ! j))"
  proof (intro allI impI)
    fix j assume "j < length (threads ?s)"
    then consider "j < length (threads s)" | "j = length (threads s)"
      by (auto simp: s less_Suc_eq)
    then show "threads ?s ! j < length (workers ?s) \<and>
        flags ?s ! j = w_flag (workers ?s ! (threads ?s ! j))"
    proof cases
      case 1
      then have "threads s ! j < ?n" using f(2) by simp
      then show ?thesis using 1 f(1) old(4) [of "threads s ! j"]
        by (simp add: s(1,2) nth_append) (simp add: s(5))
    next
      case 2
      then show ?thesis using f(1) nw(4) by (simp add: s(1,2) nth_append) (simp add: s(5))
    qed
  qed
  have 2: "\<forall>t<length (workers ?s).
        (pc_of ?s t = W_waiting \<longrightarrow> t \<in> set (pool_cv ?s)) \<and>
        (if t \<in> set (threads ?s)
         then w_handle (workers ?s ! t) = Joinable \<and> \<not> flag_of ?s t \<and> pc_of ?s t \<noteq> W_exit
         else flag_of ?s t \<or> pc_of ?s t = W_exit)"
  proof (intro allI impI)
    fix t assume "t < length (workers ?s)"
    then consider "t < ?n" | "t = ?n" by (auto simp: s less_Suc_eq)
    then show "(pc_of ?s t = W_waiting \<longrightarrow> t \<in> set (pool_cv ?s)) \<and>
        (if t \<in> set (threads ?s)
         then w_handle (workers ?s ! t) = Joinable \<and> \<not> flag_of ?s t \<and> pc_of ?s t \<noteq> W_exit
         else flag_of ?s t \<or> pc_of ?s t = W_exit)"
    proof cases
      case 1
      with o(4) old [OF 1] show ?thesis by (simp add: s(1,9))
    next
      case 2
      with nw show ?thesis by (simp add: s(1))
    qed
  qed
  have 3: "\<forall>t<length (workers ?s). w_flag (workers ?s ! t) = t"
  proof (intro allI impI)
    fix t assume "t < length (workers ?s)"
    then consider "t < ?n" | "t = ?n" by (auto simp: s less_Suc_eq)
    then show "w_flag (workers ?s ! t) = t" using old(4) nw(4) by cases simp_all
  qed
  have 4: "pool_ok ?s"
    unfolding pool_ok_def using 1 2 o(1,2,3) nd by (simp add: s(6,7,8)) (simp add: s(1,2))
  show ?thesis unfolding fresh_ok_def using 4 3 nd d new by (simp add: s(7,4,1)) (simp add: s(5))
qed

lemma fresh_ok_fold_set_thread: "fresh_ok s \<Longrightarrow> fresh_ok (fold set_thread js s)"
  by (induction js arbitrary: s) (simp_all add: fresh_ok_set_thread)

lemma fold_detach_thread:
  "threads (fold detach_thread js s) = threads s \<and> flags (fold detach_thread js s) = flags s \<and>
   isStop (fold detach_thread js s) = isStop s \<and> isDone (fold detach_thread js s) = isDone s \<and>
   mgr (fold detach_thread js s) = mgr s \<and> pool_cv (fold detach_thread js s) = pool_cv s \<and>
   n_atomics (fold detach_thread js s) = n_atomics s \<and>
   length (workers (fold detach_thread js s)) = length (workers s) \<and>
   (\<forall>a. atomics (fold detach_thread js s) a \<longleftrightarrow>
        atomics s a \<or> (\<exists>i\<in>set js. flags s ! i = a)) \<and>
   (\<forall>t. w_pc (workers (fold detach_thread js s) ! t) = w_pc (workers s ! t) \<and>
        w_flag (workers (fold detach_thread js s) ! t) = w_flag (workers s ! t)) \<and>
   (\<forall>t<length (workers s). w_handle (workers (fold detach_thread js s) ! t) =
        (if \<exists>i\<in>set js. threads s ! i = t then Detached else w_handle (workers s ! t)))"
proof (induction js arbitrary: s)
  case Nil
  then show ?case by simp
next
  case (Cons j js)
  let ?s = "detach_thread j s"
  have d: "threads ?s = threads s" "flags ?s = flags s" "isStop ?s = isStop s"
    "isDone ?s = isDone s" "mgr ?s = mgr s" "pool_cv ?s = pool_cv s"
    "n_atomics ?s = n_atomics s" "length (workers ?s) = length (workers s)"
    "atomics ?s = (atomics s)(flags s ! j := True)"
    by (simp_all add: detach_thread_def)
  have w: "w_pc (workers ?s ! t) = w_pc (workers s ! t)"
    "w_flag (workers ?s ! t) = w_flag (workers s ! t)" for t
    by (simp_all add: detach_thread_def nth_update_proj)
  have h: "w_handle (workers ?s ! t) =
      (if threads s ! j = t then Detached else w_handle (workers s ! t))"
    if "t < length (workers s)" for t
    using that by (simp add: detach_thread_def nth_list_update)
  show ?case
    using Cons.IH [of ?s] unfolding fold_Cons comp_apply d w
    by (intro conjI) (auto simp: h)
qed

lemma in_set_drop_nth:
  "x \<in> set (drop n xs) \<longleftrightarrow> (\<exists>i. n \<le> i \<and> i < length xs \<and> xs ! i = x)"
proof
  assume "x \<in> set (drop n xs)"
  then obtain k where "k < length xs - n" "drop n xs ! k = x"
    by (auto simp: in_set_conv_nth)
  then have "n \<le> n + k \<and> n + k < length xs \<and> xs ! (n + k) = x" by auto
  then show "\<exists>i. n \<le> i \<and> i < length xs \<and> xs ! i = x" by blast
next
  assume "\<exists>i. n \<le> i \<and> i < length xs \<and> xs ! i = x"
  then obtain i where i: "n \<le> i" "i < length xs" "xs ! i = x" by blast
  then have "i - n < length (drop n xs)" "drop n xs ! (i - n) = x" by auto
  then show "x \<in> set (drop n xs)" by (metis nth_mem)
qed

lemma distinct_take_drop:
  "distinct xs \<Longrightarrow> x \<in> set (take n xs) \<Longrightarrow> x \<notin> set (drop n xs)"
  by (metis append_take_drop_id distinct_append disjoint_iff)

lemma fresh_ok_shrink:
  assumes f: "fresh_ok s" and N: "N < length (threads s)"
  defines "s1 \<equiv> fold detach_thread (rev [N ..< length (threads s)]) s"
  defines "s' \<equiv> s1\<lparr>workers := notify_all (pool_cv s1) (workers s1), pool_cv := [],
                   threads := take N (threads s1), flags := take N (flags s1)\<rparr>"
  shows "fresh_ok s'"
proof -
  note ff = fresh_ok_flags [OF f]
  from f have p: "pool_ok s" and nd: "\<not> isDone s" and na: "n_atomics s = length (workers s)"
    and w: "\<forall>t<length (workers s). w_flag (workers s ! t) = t" and d: "distinct (threads s)"
    by (simp_all add: fresh_ok_def)
  from p have o: "\<not> isStop s" "mgr s = M_idle"
    "\<forall>t<length (workers s). (pc_of s t = W_waiting \<longrightarrow> t \<in> set (pool_cv s)) \<and>
        (if t \<in> set (threads s)
         then w_handle (workers s ! t) = Joinable \<and> \<not> flag_of s t \<and> pc_of s t \<noteq> W_exit
         else flag_of s t \<or> pc_of s t = W_exit)"
    by (simp_all add: pool_ok_def)
  let ?js = "rev [N ..< length (threads s)]"
  have dr: "(\<exists>i\<in>set ?js. threads s ! i = a) \<longleftrightarrow> a \<in> set (drop N (threads s))" for a
    by (auto simp: in_set_drop_nth)
  from fold_detach_thread [of ?js s] have
    s1: "threads s1 = threads s" "flags s1 = flags s" "isStop s1 = isStop s" "isDone s1 = isDone s"
      "mgr s1 = mgr s" "pool_cv s1 = pool_cv s" "n_atomics s1 = n_atomics s"
      "length (workers s1) = length (workers s)"
    and at: "\<forall>a. atomics s1 a \<longleftrightarrow> atomics s a \<or> a \<in> set (drop N (threads s))"
    and wp: "\<forall>t. w_pc (workers s1 ! t) = w_pc (workers s ! t) \<and>
        w_flag (workers s1 ! t) = w_flag (workers s ! t)"
    and wh: "\<forall>t<length (workers s). w_handle (workers s1 ! t) =
        (if t \<in> set (drop N (threads s)) then Detached else w_handle (workers s ! t))"
    unfolding s1_def ff(1) dr by simp_all
  have cv1: "\<forall>t<length (workers s1). w_pc (workers s1 ! t) = W_waiting \<longrightarrow> t \<in> set (pool_cv s1)"
    using o(3) wp by (simp add: s1 pc_of_def)
  note n = notify_all_pcs [OF cv1]
  have s': "threads s' = take N (threads s)" "flags s' = take N (threads s)"
    "isStop s' = isStop s" "isDone s' = isDone s" "mgr s' = mgr s" "pool_cv s' = []"
    "n_atomics s' = n_atomics s" "atomics s' = atomics s1"
    by (simp_all add: s'_def s1 ff(1))
  have ws': "workers s' = notify_all (pool_cv s1) (workers s1)"
    by (simp add: s'_def)
  have len: "length (workers s') = length (workers s)" by (simp only: ws' n(1) s1(8))
  have wf: "w_flag (workers s' ! t) = w_flag (workers s ! t)" for t
    by (simp add: ws' n(2) wp)
  have hd: "w_handle (workers s' ! t) =
      (if t \<in> set (drop N (threads s)) then Detached else w_handle (workers s ! t))"
    if "t < length (workers s)" for t
    using that wh by (simp add: ws' n(3))
  have nwait: "pc_of s' t \<noteq> W_waiting" if "t < length (workers s)" for t
    using that n(4) [of t] by (simp add: pc_of_def ws' s1)
  have ex: "pc_of s' t = W_exit \<longleftrightarrow> pc_of s t = W_exit" for t
    using wp by (auto simp: pc_of_def ws' notify_all_nth)
  have fl: "flag_of s' t \<longleftrightarrow> flag_of s t \<or> t \<in> set (drop N (threads s))"
    if "t < length (workers s)" for t
    using that at w by (simp add: flag_of_def s'(8) wf)
  have 1: "\<forall>j<length (threads s'). threads s' ! j < length (workers s') \<and>
        flags s' ! j = w_flag (workers s' ! (threads s' ! j))"
  proof (intro allI impI)
    fix j assume "j < length (threads s')"
    then have j: "j < N" "j < length (threads s)" using N by (simp_all add: s')
    then have "threads s ! j < length (workers s)" using ff(2) by simp
    then show "threads s' ! j < length (workers s') \<and>
        flags s' ! j = w_flag (workers s' ! (threads s' ! j))"
      using j w by (simp add: s' len wf)
  qed
  have 2: "\<forall>t<length (workers s').
        (pc_of s' t = W_waiting \<longrightarrow> t \<in> set (pool_cv s')) \<and>
        (if t \<in> set (threads s')
         then w_handle (workers s' ! t) = Joinable \<and> \<not> flag_of s' t \<and> pc_of s' t \<noteq> W_exit
         else flag_of s' t \<or> pc_of s' t = W_exit)"
  proof (intro allI impI)
    fix t assume "t < length (workers s')"
    then have t: "t < length (workers s)" by (simp add: len)
    show "(pc_of s' t = W_waiting \<longrightarrow> t \<in> set (pool_cv s')) \<and>
        (if t \<in> set (threads s')
         then w_handle (workers s' ! t) = Joinable \<and> \<not> flag_of s' t \<and> pc_of s' t \<noteq> W_exit
         else flag_of s' t \<or> pc_of s' t = W_exit)"
    proof (cases "t \<in> set (take N (threads s))")
      case True
      then have "t \<in> set (threads s)" by (rule in_set_takeD)
      moreover from True d have "t \<notin> set (drop N (threads s))" by (rule distinct_take_drop [rotated])
      ultimately show ?thesis using True o(3) t nwait [OF t]
        by (simp add: s'(1) hd [OF t] fl [OF t] ex)
    next
      case False
      show ?thesis
      proof (cases "t \<in> set (threads s)")
        case True
        with False have "t \<in> set (drop N (threads s))"
          by (metis Un_iff append_take_drop_id set_append)
        then show ?thesis using False nwait [OF t] by (simp add: s'(1) fl [OF t])
      next
        case nin: False
        then show ?thesis using False o(3) t nwait [OF t]
          by (auto simp: s'(1) fl [OF t] ex)
      qed
    qed
  qed
  have 4: "pool_ok s'"
    unfolding pool_ok_def using 1 2 o(1,2) nd by (simp add: s'(3,4,5)) (simp add: s'(1,2))
  show ?thesis unfolding fresh_ok_def using 4 nd d na w
    by (simp add: s'(4,7) len wf) (simp add: s'(1))
qed

lemma fresh_ok_resize:
  assumes f: "fresh_ok s" and r: "resize n s = Some s'"
  shows "fresh_ok s'"
proof -
  from f have run: "\<not> isStop s" "\<not> isDone s" by (simp_all add: fresh_ok_def pool_ok_def)
  from r run have ok: "0 \<le> sint n"
    "sint (word_of_nat (length (threads s)) :: 32 word) = int (length (threads s))"
    by (auto simp: resize_def Let_def split: if_splits)
  show ?thesis
  proof (cases "length (threads s) \<le> nat (sint n)")
    case True
    with r run ok have "s' = fold set_thread [length (threads s) ..< nat (sint n)] s"
      by (auto simp: resize_def Let_def split: if_splits)
    then show ?thesis using f by (simp add: fresh_ok_fold_set_thread)
  next
    case False
    then have N: "nat (sint n) < length (threads s)" by simp
    with r run ok have "s' = (fold detach_thread (rev [nat (sint n) ..< length (threads s)]) s)
        \<lparr>workers := notify_all
           (pool_cv (fold detach_thread (rev [nat (sint n) ..< length (threads s)]) s))
           (workers (fold detach_thread (rev [nat (sint n) ..< length (threads s)]) s)),
         pool_cv := [],
         threads := take (nat (sint n))
           (threads (fold detach_thread (rev [nat (sint n) ..< length (threads s)]) s)),
         flags := take (nat (sint n))
           (flags (fold detach_thread (rev [nat (sint n) ..< length (threads s)]) s))\<rparr>"
      by (auto simp: resize_def Let_def split: if_splits)
    with fresh_ok_shrink [OF f N] show ?thesis by simp
  qed
qed

lemma queue_pop_n_atomics: "n_atomics (snd (queue_pop k s)) = n_atomics s"
  by (simp add: queue_pop_def split: prod.splits)

lemma worker_step_n_atomics:
  assumes "worker_step k t s = Some s'"
  shows "n_atomics s' = n_atomics s"
proof -
  have w: "n_atomics (wait_pred k t u) = n_atomics u" for u :: "('e, 'v) system"
    using queue_pop_n_atomics [of k u]
    by (auto simp: wait_pred_def set_pc_def update_tracker_def
        split: prod.splits option.splits)
  show ?thesis
    using assms queue_pop_n_atomics [of k s]
    by (cases "w_pc (workers s ! t)")
      (auto simp: worker_step_def set_pc_def update_tracker_def w
         split: if_splits prod.splits option.splits)
qed

lemma fresh_ok_worker:
  assumes f: "fresh_ok s" and st: "worker_step k t s = Some s'"
  shows "fresh_ok s'"
proof -
  from worker_step_cases [OF st] obtain pc' where
    t: "t < length (workers s)" and fr: "wframe s s'"
    and ws: "workers s' = (workers s)[t := (workers s ! t)\<lparr>w_pc := pc'\<rparr>]"
    and wc: "wcase s t pc' s'" by blast
  note n = wstep_nth [OF ws t]
  note ne = wcase_not_exit [OF wc] and wt = wcase_waiting [OF wc] and we = wcase_exit [OF wc]
  from fr have fr': "threads s' = threads s" "flags s' = flags s" "isDone s' = isDone s"
    "isStop s' = isStop s" "atomics s' = atomics s" "mgr s' = mgr s"
    by (simp_all add: wframe_def)
  from f have p: "pool_ok s" and nd: "\<not> isDone s" and na: "n_atomics s = length (workers s)"
    and w: "\<forall>t<length (workers s). w_flag (workers s ! t) = t" and d: "distinct (threads s)"
    by (simp_all add: fresh_ok_def)
  have fl: "flag_of s' i = flag_of s i" for i by (simp add: flag_of_def fr' n(2))
  have "pool_ok s'"
    using p nd ne wt we unfolding pool_ok_def fr' n fl
    by (intro conjI) (auto split: if_splits)
  then show ?thesis
    using nd na w d worker_step_n_atomics [OF st] by (simp add: fresh_ok_def fr' n)
qed

lemma notify_one_set:
  assumes "notify_one k cs = (Some t, ws)"
  shows "set cs \<subseteq> insert t (set ws)"
proof -
  from assms have "cs \<noteq> []" by (auto simp: notify_one_def)
  from notify_one_mset [OF this, of k] assms have "mset cs = add_mset t (mset ws)" by auto
  then have "set_mset (mset cs) = set_mset (add_mset t (mset ws))" by simp
  then show ?thesis by auto
qed

lemma client_step_cases:
  assumes "client_step k c s = Some s'"
  shows "threads s' = threads s \<and> flags s' = flags s \<and> isDone s' = isDone s \<and>
    isStop s' = isStop s \<and> atomics s' = atomics s \<and> mgr s' = mgr s \<and>
    n_atomics s' = n_atomics s \<and>
    ((workers s' = workers s \<and> pool_cv s' = pool_cv s) \<or>
     (\<exists>t. notify_one k (pool_cv s) = (Some t, pool_cv s') \<and>
          workers s' = wake_worker t (workers s)))"
  using assms
  by (cases "clients s ! c")
    (auto simp: client_step_def set_cpc_def split: if_splits prod.splits option.splits)

lemma fresh_ok_same_workers:
  assumes "fresh_ok s" "threads s' = threads s" "flags s' = flags s" "isDone s' = isDone s"
    "isStop s' = isStop s" "atomics s' = atomics s" "mgr s' = mgr s"
    "n_atomics s' = n_atomics s" "workers s' = workers s" "pool_cv s' = pool_cv s"
  shows "fresh_ok s'"
proof -
  have e: "pc_of s' = pc_of s" "flag_of s' = flag_of s"
    by (simp_all add: fun_eq_iff pc_of_def flag_of_def assms(6,9))
  show ?thesis
    using assms(1) unfolding fresh_ok_def pool_ok_def e assms(2-10) .
qed

lemma fresh_ok_client:
  assumes f: "fresh_ok s" and st: "client_step k c s = Some s'"
  shows "fresh_ok s'"
proof -
  from client_step_cases [OF st] have fr: "threads s' = threads s" "flags s' = flags s"
    "isDone s' = isDone s" "isStop s' = isStop s" "atomics s' = atomics s" "mgr s' = mgr s"
    "n_atomics s' = n_atomics s"
    and alt: "(workers s' = workers s \<and> pool_cv s' = pool_cv s) \<or>
     (\<exists>t. notify_one k (pool_cv s) = (Some t, pool_cv s') \<and>
          workers s' = wake_worker t (workers s))"
    by simp_all
  from alt show ?thesis
  proof
    assume "workers s' = workers s \<and> pool_cv s' = pool_cv s"
    then show ?thesis using f fr by (intro fresh_ok_same_workers [of s s']) simp_all
  next
    assume "\<exists>t. notify_one k (pool_cv s) = (Some t, pool_cv s') \<and>
          workers s' = wake_worker t (workers s)"
    then obtain t where no: "notify_one k (pool_cv s) = (Some t, pool_cv s')"
      and ws: "workers s' = wake_worker t (workers s)" by blast
    note sub = notify_one_set [OF no]
    from f have p: "pool_ok s" and nd: "\<not> isDone s" and na: "n_atomics s = length (workers s)"
      and w: "\<forall>t<length (workers s). w_flag (workers s ! t) = t" and d: "distinct (threads s)"
      by (simp_all add: fresh_ok_def)
    have len: "length (workers s') = length (workers s)" by (simp add: ws length_wake_worker)
    have wf: "w_flag (workers s' ! i) = w_flag (workers s ! i)"
      and wh: "w_handle (workers s' ! i) = w_handle (workers s ! i)"
      and pc: "pc_of s' i = (if i = t \<and> i < length (workers s) \<and> pc_of s i = W_waiting
          then W_notified else pc_of s i)" for i
      by (auto simp: ws wake_worker_nth pc_of_def)
    have fl: "flag_of s' i = flag_of s i" for i by (simp add: flag_of_def fr wf)
    have "pool_ok s'"
      using p nd sub unfolding pool_ok_def fr len wf wh pc fl
      by (intro conjI) (auto split: if_splits)
    then show ?thesis
      using nd na w d by (simp add: fresh_ok_def fr len wf)
  qed
qed

lemma fresh_ok_submit: "fresh_ok s \<Longrightarrow> fresh_ok (submit g s)"
  by (rule fresh_ok_same_workers [of s]) (simp_all add: submit_def pool_push_def)

lemma fresh_ok_life:
  assumes "life xs s = Some s'" "fresh_ok s"
  shows "fresh_ok s'"
  using assms
proof (induction xs arbitrary: s)
  case Nil
  then show ?case by simp
next
  case (Cons x xs)
  from Cons.prems(1) obtain s1 where a: "act_step x s = Some s1" and l: "life xs s1 = Some s'"
    by (auto split: option.splits)
  have "fresh_ok s1"
  proof (cases x)
    case (Thread e)
    have "mgr s = M_idle" using Cons.prems(2) by (simp add: fresh_ok_def pool_ok_def)
    then have "mgr_step k s = None" for k by (simp add: mgr_step_def)
    with a Thread Cons.prems(2) show ?thesis
      by (cases e) (auto intro: fresh_ok_worker fresh_ok_client split: if_splits)
  next
    case (Push g)
    with a Cons.prems(2) show ?thesis by (auto intro: fresh_ok_submit split: if_splits)
  next
    case (Resize n)
    with a Cons.prems(2) show ?thesis by (auto intro: fresh_ok_resize split: if_splits)
  qed
  with l show ?case by (rule Cons.IH)
qed

lemma fresh_ok_thread_pool_default: "fresh_ok thread_pool_default"
  by (simp add: thread_pool_default_def fresh_ok_init)

lemma fresh_ok_thread_pool:
  assumes "thread_pool n = Some s"
  shows "fresh_ok s"
proof -
  from assms obtain s1 where r: "resize n init = Some s1" and s: "s = s1\<lparr>queue := set_limit 1 (queue s1)\<rparr>"
    by (auto simp: thread_pool_def split: option.splits)
  have "fresh_ok s1" using fresh_ok_init r by (rule fresh_ok_resize)
  then show ?thesis by (rule fresh_ok_same_workers) (simp_all add: s)
qed

lemma pool_ok_life:
  assumes "thread_pool n = Some s0 \<or> s0 = thread_pool_default" and "life xs s0 = Some s"
  shows "pool_ok s"
proof -
  from assms(1) have "fresh_ok s0"
    by (auto intro: fresh_ok_thread_pool fresh_ok_thread_pool_default)
  with assms(2) have "fresh_ok s" by (rule fresh_ok_life)
  then show ?thesis by (simp add: fresh_ok_def)
qed

subsection \<open>The tracker stays inside its table\<close>

lemma waits_le: "waits pc \<le> 1"
  by (cases pc) simp_all

lemma waiters_le: "waiters s \<le> length (workers s)"
proof -
  have "sum_list (map (\<lambda>w. waits (w_pc w)) ws) \<le> length ws" for ws :: "('a, 'b) worker list"
  proof (induction ws)
    case Nil
    then show ?case by simp
  next
    case (Cons a ws)
    then show ?case using waits_le [of "w_pc a"] by simp
  qed
  then show ?thesis by (simp add: waiters_def)
qed

lemma waiters_update:
  assumes "t < length (workers s)"
    and "workers s' = (workers s)[t := (workers s ! t)\<lparr>w_pc := pc'\<rparr>]"
  shows "waiters s' + waits (pc_of s t) = waiters s + waits pc'"
  using sum_list_map_update [OF assms(1), of "\<lambda>w. waits (w_pc w)" "(workers s ! t)\<lparr>w_pc := pc'\<rparr>"]
  by (simp add: waiters_def assms(2) pc_of_def)

lemma waiters_lt:
  assumes "t < length (workers s)" "waits (pc_of s t) = 0"
  shows "waiters s < length (workers s)"
proof -
  have ws: "workers (set_pc t W_waiting s) = (workers s)[t := (workers s ! t)\<lparr>w_pc := W_waiting\<rparr>]"
    by (simp add: set_pc_def)
  from waiters_update [OF assms(1) ws] assms(2)
  have "waiters (set_pc t W_waiting s) = waiters s + 1" by simp
  moreover have "waiters (set_pc t W_waiting s) \<le> length (workers (set_pc t W_waiting s))"
    by (rule waiters_le)
  moreover have "length (workers (set_pc t W_waiting s)) = length (workers s)" by (simp add: ws)
  ultimately show ?thesis by simp
qed

lemma waiters_pos:
  assumes "t < length (workers s)" "waits (pc_of s t) = 1"
  shows "1 \<le> waiters s"
proof -
  have ws: "workers (set_pc t W_pop s) = (workers s)[t := (workers s ! t)\<lparr>w_pc := W_pop\<rparr>]"
    by (simp add: set_pc_def)
  from waiters_update [OF assms(1) ws] assms(2) show ?thesis by simp
qed

lemma waits_notify_all:
  "map (\<lambda>w. waits (w_pc w)) (notify_all cs ws) = map (\<lambda>w. waits (w_pc w)) ws"
  by (rule nth_equalityI) (auto simp: length_notify_all notify_all_nth)

lemma waits_wake_worker:
  "map (\<lambda>w. waits (w_pc w)) (wake_worker c ws) = map (\<lambda>w. waits (w_pc w)) ws"
  by (rule nth_equalityI) (auto simp: length_wake_worker wake_worker_nth)

lemma waits_handle:
  "map (\<lambda>w. waits (w_pc w)) (ws[i := (ws ! i)\<lparr>w_handle := h\<rparr>]) = map (\<lambda>w. waits (w_pc w)) ws"
proof (rule nth_equalityI)
  fix j
  show "map (\<lambda>w. waits (w_pc w)) (ws[i := (ws ! i)\<lparr>w_handle := h\<rparr>]) ! j
      = map (\<lambda>w. waits (w_pc w)) ws ! j" if "j < length (map (\<lambda>w. waits (w_pc w)) (ws[i := (ws ! i)\<lparr>w_handle := h\<rparr>]))"
    using that nth_update_proj [of "\<lambda>w. waits (w_pc w)" "(ws ! i)\<lparr>w_handle := h\<rparr>" ws i j]
    by simp
qed simp

lemma values_below_update:
  assumes "values_below n tr" "0 \<le> v" "v \<le> n"
  shows "Option.bind tr (updateValue v) \<noteq> None \<Longrightarrow> values_below n (Option.bind tr (updateValue v))"
    and "n < 64 \<Longrightarrow> Option.bind tr (updateValue v) \<noteq> None"
  using assms by (cases tr; auto simp: values_below_def updateValue_def split: if_splits)+

lemma values_below_Some: "values_below n tr \<Longrightarrow> tr \<noteq> None"
  by (cases tr) (auto simp: values_below_def)

lemma values_below_mono: "values_below n tr \<Longrightarrow> n \<le> m \<Longrightarrow> values_below m tr"
  by (cases tr) (auto simp: values_below_def)

lemma worker_step_tracker:
  assumes "worker_step k t s = Some s'"
  shows "(pc_of s t \<noteq> W_idle \<and> pc_of s t \<noteq> W_notified \<and>
            nWaiting s' = nWaiting s \<and> tracker s' = tracker s)
       \<or> (pc_of s t = W_idle \<and> pc_of s' t = W_waiting \<and> nWaiting s' = nWaiting s + 1 \<and>
            tracker s' = Option.bind (tracker s) (updateValue (nWaiting s + 1)))
       \<or> (pc_of s t = W_idle \<and> pc_of s' t \<noteq> W_waiting \<and> nWaiting s' = nWaiting s \<and>
            tracker s' = Option.bind (Option.bind (tracker s) (updateValue (nWaiting s + 1)))
              (updateValue (nWaiting s)))
       \<or> (pc_of s t = W_notified \<and> pc_of s' t = W_waiting \<and> nWaiting s' = nWaiting s \<and>
            tracker s' = tracker s)
       \<or> (pc_of s t = W_notified \<and> pc_of s' t \<noteq> W_waiting \<and> nWaiting s' = nWaiting s - 1 \<and>
            tracker s' = Option.bind (tracker s) (updateValue (nWaiting s - 1)))"
proof -
  from assms have t: "t < length (workers s)"
    by (simp add: worker_step_def split: if_splits)
  show ?thesis
    using assms t
    by (cases "w_pc (workers s ! t)")
      (auto simp: worker_step_def wait_pred_def set_pc_def update_tracker_def queue_pop_def
         pop_def pc_of_def split: if_splits list.splits)
qed

lemma tracker_worker:
  assumes ok: "tracker_ok s" and st: "worker_step k t s = Some s'"
  shows "tracker s' \<noteq> None \<Longrightarrow> tracker_ok s'"
    and "length (workers s) < 64 \<Longrightarrow> tracker s' \<noteq> None"
    and "length (workers s') = length (workers s)"
proof -
  from worker_step_cases [OF st] obtain pc' where
    t: "t < length (workers s)"
    and ws: "workers s' = (workers s)[t := (workers s ! t)\<lparr>w_pc := pc'\<rparr>]"
    and wc: "wcase s t pc' s'" by blast
  note n = wstep_nth [OF ws t]
  have pc': "pc_of s' t = pc'" by (simp add: n(4))
  note wu = waiters_update [OF t ws]
  from ok have nw: "nWaiting s = int (waiters s)"
    and vb: "values_below (int (length (workers s))) (tracker s)"
    by (simp_all add: tracker_ok_def)
  note le = waiters_le [of s]
  let ?n = "int (length (workers s))"
  show len: "length (workers s') = length (workers s)" by (rule n(1))
  note c = worker_step_tracker [OF st]
  have ne: "pc_of s t \<noteq> W_waiting" using wcase_waiting [OF wc] wc by (auto simp: wcase_def)
  have idle: "int (waiters s) + 1 \<le> ?n" if "pc_of s t = W_idle"
    using waiters_lt [OF t] that by simp
  have noti: "1 \<le> waiters s" if "pc_of s t = W_notified"
    using waiters_pos [OF t] that by simp
  have u1: "Option.bind (tracker s) (updateValue (nWaiting s + 1)) \<noteq> None \<Longrightarrow>
      values_below ?n (Option.bind (tracker s) (updateValue (nWaiting s + 1)))"
    and u1': "?n < 64 \<Longrightarrow> Option.bind (tracker s) (updateValue (nWaiting s + 1)) \<noteq> None"
    if "pc_of s t = W_idle"
    using values_below_update [OF vb, of "nWaiting s + 1"] idle [OF that] nw by simp_all
  have u2: "tr' \<noteq> None \<Longrightarrow> values_below ?n tr' \<Longrightarrow>
      (Option.bind tr' (updateValue (nWaiting s)) \<noteq> None \<longrightarrow>
         values_below ?n (Option.bind tr' (updateValue (nWaiting s)))) \<and>
      (?n < 64 \<longrightarrow> Option.bind tr' (updateValue (nWaiting s)) \<noteq> None)" for tr'
    using values_below_update [of ?n tr' "nWaiting s"] nw le by simp
  have u3: "Option.bind (tracker s) (updateValue (nWaiting s - 1)) \<noteq> None \<Longrightarrow>
      values_below ?n (Option.bind (tracker s) (updateValue (nWaiting s - 1)))"
    and u3': "?n < 64 \<Longrightarrow> Option.bind (tracker s) (updateValue (nWaiting s - 1)) \<noteq> None"
    if "pc_of s t = W_notified"
    using values_below_update [OF vb, of "nWaiting s - 1"] noti [OF that] nw le by simp_all
  have bindN: "Option.bind tr f \<noteq> None \<Longrightarrow> tr \<noteq> None" for tr :: "ValueTracker option" and f :: "ValueTracker \<Rightarrow> ValueTracker option"
    by (cases tr) simp_all
  from c consider
      (same) "pc_of s t \<noteq> W_idle" "pc_of s t \<noteq> W_notified"
        "nWaiting s' = nWaiting s" "tracker s' = tracker s"
    | (susp) "pc_of s t = W_idle" "pc_of s' t = W_waiting" "nWaiting s' = nWaiting s + 1"
        "tracker s' = Option.bind (tracker s) (updateValue (nWaiting s + 1))"
    | (thru) "pc_of s t = W_idle" "pc_of s' t \<noteq> W_waiting" "nWaiting s' = nWaiting s"
        "tracker s' = Option.bind (Option.bind (tracker s) (updateValue (nWaiting s + 1)))
              (updateValue (nWaiting s))"
    | (again) "pc_of s t = W_notified" "pc_of s' t = W_waiting" "nWaiting s' = nWaiting s"
        "tracker s' = tracker s"
    | (woke) "pc_of s t = W_notified" "pc_of s' t \<noteq> W_waiting" "nWaiting s' = nWaiting s - 1"
        "tracker s' = Option.bind (tracker s) (updateValue (nWaiting s - 1))"
    by blast
  then have "(tracker s' \<noteq> None \<longrightarrow> tracker_ok s') \<and> (length (workers s) < 64 \<longrightarrow> tracker s' \<noteq> None)"
  proof cases
    case same
    have "waits pc' = waits (pc_of s t)"
      using wc same(1,2) ne by (auto simp: wcase_def split: if_splits)
    with wu have "waiters s' = waiters s" by simp
    then show ?thesis using same nw vb values_below_Some [OF vb] by (simp add: tracker_ok_def len)
  next
    case susp
    from wu susp(1,2) pc' have "waiters s' = waiters s + 1" by simp
    then show ?thesis using susp u1 [OF susp(1)] u1' [OF susp(1)] nw
      by (simp add: tracker_ok_def len)
  next
    case thru
    have "pc' \<noteq> W_notified" using wc by (auto simp: wcase_def split: if_splits)
    with thru(2) pc' have "waits pc' = 0" by (cases pc') simp_all
    with wu thru(1) have w: "waiters s' = waiters s" by simp
    let ?tr = "Option.bind (tracker s) (updateValue (nWaiting s + 1))"
    show ?thesis
    proof (cases "?tr = None")
      case True
      then show ?thesis using thru(4) u1' [OF thru(1)] by auto
    next
      case False
      from u2 [OF False u1 [OF thru(1) False]] show ?thesis
        using thru(3,4) w nw by (simp add: tracker_ok_def len)
    qed
  next
    case again
    from wu again(1,2) pc' have "waiters s' = waiters s" by simp
    then show ?thesis using again nw vb values_below_Some [OF vb] by (simp add: tracker_ok_def len)
  next
    case woke
    have "pc' \<noteq> W_notified" using wc by (auto simp: wcase_def split: if_splits)
    with woke(2) pc' have "waits pc' = 0" by (cases pc') simp_all
    with wu woke(1) have "waiters s' + 1 = waiters s" by simp
    then have "int (waiters s') = nWaiting s - 1" using nw by simp
    then show ?thesis using woke(3,4) u3 [OF woke(1)] u3' [OF woke(1)]
      by (simp add: tracker_ok_def len)
  qed
  then show "tracker s' \<noteq> None \<Longrightarrow> tracker_ok s'"
    and "length (workers s) < 64 \<Longrightarrow> tracker s' \<noteq> None" by simp_all
qed

lemma mgr_step_tracker:
  assumes "mgr_step k s = Some s'"
  shows "nWaiting s' = nWaiting s \<and> tracker s' = tracker s \<and>
    length (workers s') = length (workers s) \<and> waiters s' = waiters s"
  using assms
  by (cases "mgr s")
    (auto simp: mgr_step_def clear_queue_step_def queue_pop_def waiters_def waits_notify_all
       length_notify_all waits_handle split: if_splits option.splits prod.splits)

lemma tracker_mgr:
  assumes "tracker_ok s" "mgr_step k s = Some s'"
  shows "tracker_ok s'" "length (workers s') = length (workers s)"
  using assms(1) mgr_step_tracker [OF assms(2)] by (simp_all add: tracker_ok_def)



lemma set_thread_tracker:
  "nWaiting (set_thread i s) = nWaiting s \<and> tracker (set_thread i s) = tracker s \<and>
   waiters (set_thread i s) = waiters s \<and>
   length (workers (set_thread i s)) = Suc (length (workers s))"
  by (simp add: set_thread_def waiters_def)

lemma fold_set_thread_tracker:
  "nWaiting (fold set_thread js s) = nWaiting s \<and> tracker (fold set_thread js s) = tracker s \<and>
   waiters (fold set_thread js s) = waiters s \<and>
   length (workers s) \<le> length (workers (fold set_thread js s))"
proof (induction js arbitrary: s)
  case Nil
  then show ?case by simp
next
  case (Cons j js)
  from Cons.IH [of "set_thread j s"] set_thread_tracker [of j s] show ?case by simp
qed

lemma detach_thread_tracker:
  "nWaiting (detach_thread i s) = nWaiting s \<and> tracker (detach_thread i s) = tracker s \<and>
   waiters (detach_thread i s) = waiters s \<and>
   length (workers (detach_thread i s)) = length (workers s)"
  by (auto simp: detach_thread_def waiters_def waits_handle Let_def)

lemma fold_detach_thread_tracker:
  "nWaiting (fold detach_thread js s) = nWaiting s \<and>
   tracker (fold detach_thread js s) = tracker s \<and>
   waiters (fold detach_thread js s) = waiters s \<and>
   length (workers (fold detach_thread js s)) = length (workers s)"
proof (induction js arbitrary: s)
  case Nil
  then show ?case by simp
next
  case (Cons j js)
  from Cons.IH [of "detach_thread j s"] detach_thread_tracker [of j s] show ?case by simp
qed

lemma resize_tracker:
  assumes "resize n s = Some s'"
  shows "nWaiting s' = nWaiting s \<and> tracker s' = tracker s \<and> waiters s' = waiters s \<and>
    length (workers s) \<le> length (workers s')"
  using assms fold_set_thread_tracker [of "[length (threads s) ..< nat (sint n)]" s]
    fold_detach_thread_tracker [of "rev [nat (sint n) ..< length (threads s)]" s]
  by (auto simp: resize_def Let_def waiters_def waits_notify_all length_notify_all
      split: if_splits)

lemma client_step_tracker:
  assumes "client_step k c s = Some s'"
  shows "nWaiting s' = nWaiting s \<and> tracker s' = tracker s \<and> waiters s' = waiters s \<and>
    length (workers s') = length (workers s)"
  using assms
  by (cases "clients s ! c")
    (auto simp: client_step_def set_cpc_def waiters_def waits_wake_worker length_wake_worker
       split: if_splits prod.splits option.splits)

lemma submit_tracker:
  "nWaiting (submit g s) = nWaiting s \<and> tracker (submit g s) = tracker s \<and>
   waiters (submit g s) = waiters s \<and> length (workers (submit g s)) = length (workers s)"
  by (simp add: submit_def pool_push_def waiters_def)

lemma tracker_ok_frame:
  assumes "tracker_ok s" and "nWaiting s' = nWaiting s \<and> tracker s' = tracker s \<and>
    waiters s' = waiters s \<and> length (workers s) \<le> length (workers s')"
  shows "tracker_ok s'"
  using assms values_below_mono [of "int (length (workers s))" "tracker s" "int (length (workers s'))"]
  by (simp add: tracker_ok_def)

lemma tracker_ok_Some: "tracker_ok s \<Longrightarrow> tracker s \<noteq> None"
  unfolding tracker_ok_def by (elim conjE) (rule values_below_Some)

lemma tracker_ok_act:
  assumes ok: "tracker_ok s" and a: "act_step x s = Some s'"
  shows "tracker s' \<noteq> None \<Longrightarrow> tracker_ok s'"
    and "length (workers s') < 64 \<Longrightarrow> tracker s' \<noteq> None"
    and "length (workers s) \<le> length (workers s')"
proof -
  have "(tracker s' \<noteq> None \<longrightarrow> tracker_ok s') \<and> (length (workers s') < 64 \<longrightarrow> tracker s' \<noteq> None)
      \<and> length (workers s) \<le> length (workers s')"
  proof (cases x)
    case (Thread e)
    show ?thesis
    proof (cases e)
      case (Worker t k)
      with a Thread have w: "worker_step k t s = Some s'" by (simp split: if_splits)
      from tracker_worker [OF ok w] show ?thesis by simp
    next
      case (Manager k)
      with a Thread have m: "mgr_step k s = Some s'" by (simp split: if_splits)
      from tracker_mgr [OF ok m] tracker_ok_Some [OF tracker_mgr(1) [OF ok m]]
      show ?thesis by simp
    next
      case (Client c k)
      with a Thread have c: "client_step k c s = Some s'" by (simp split: if_splits)
      from client_step_tracker [OF c] have f: "nWaiting s' = nWaiting s \<and> tracker s' = tracker s \<and>
        waiters s' = waiters s \<and> length (workers s) \<le> length (workers s')" by simp
      from tracker_ok_frame [OF ok f] tracker_ok_Some [OF tracker_ok_frame [OF ok f]] f
      show ?thesis by simp
    qed
  next
    case (Push g)
    with a have s': "s' = submit g s" by (simp split: if_splits)
    from submit_tracker [of g s] have f: "nWaiting s' = nWaiting s \<and> tracker s' = tracker s \<and>
        waiters s' = waiters s \<and> length (workers s) \<le> length (workers s')" by (simp add: s')
    from tracker_ok_frame [OF ok f] tracker_ok_Some [OF tracker_ok_frame [OF ok f]] f
    show ?thesis by simp
  next
    case (Resize n)
    with a have r: "resize n s = Some s'" by (simp split: if_splits)
    note f = resize_tracker [OF r]
    from tracker_ok_frame [OF ok f] tracker_ok_Some [OF tracker_ok_frame [OF ok f]] f
    show ?thesis by simp
  qed
  then show "tracker s' \<noteq> None \<Longrightarrow> tracker_ok s'"
    and "length (workers s') < 64 \<Longrightarrow> tracker s' \<noteq> None"
    and "length (workers s) \<le> length (workers s')" by simp_all
qed

lemma act_step_guard: "act_step x s = Some s' \<Longrightarrow> tracker s \<noteq> None"
  by (cases x; cases "tracker s") (auto split: if_splits elim: step.elims)

lemma tracker_ok_life_aux:
  assumes "life xs s = Some s'" "tracker_ok s"
  shows "length (workers s) \<le> length (workers s') \<and>
    (length (workers s') < 64 \<longrightarrow> tracker_ok s')"
  using assms
proof (induction xs arbitrary: s)
  case Nil
  then show ?case by simp
next
  case (Cons x xs)
  from Cons.prems(1) obtain s1 where a: "act_step x s = Some s1" and l: "life xs s1 = Some s'"
    by (auto split: option.splits)
  note t = tracker_ok_act [OF Cons.prems(2) a]
  show ?case
  proof (cases xs)
    case Nil
    with l have "s1 = s'" by simp
    with t show ?thesis by auto
  next
    case (Cons y ys)
    with l obtain s2 where "act_step y s1 = Some s2" by (auto split: option.splits)
    then have "tracker s1 \<noteq> None" by (rule act_step_guard)
    then have "tracker_ok s1" by (rule t(1))
    from Cons.IH [OF l this] t(3) show ?thesis by simp
  qed
qed

lemma tracker_ok_init: "tracker_ok init"
  by (simp add: tracker_ok_def init_def waiters_def values_below_def ValueTracker_init_def)

lemma tracker_ok_thread_pool:
  assumes "thread_pool n = Some s"
  shows "tracker_ok s"
proof -
  from assms obtain s1 where r: "resize n init = Some s1"
    and s: "s = s1\<lparr>queue := set_limit 1 (queue s1)\<rparr>"
    by (auto simp: thread_pool_def split: option.splits)
  from tracker_ok_frame [OF tracker_ok_init resize_tracker [OF r]] have "tracker_ok s1" .
  then show ?thesis by (simp add: s tracker_ok_def waiters_def)
qed

lemma tracker_ok_life:
  assumes "thread_pool n = Some s0 \<or> s0 = thread_pool_default" and "life xs s0 = Some s"
    and "length (workers s) < 64"
  shows "tracker_ok s"
proof -
  from assms(1) have "tracker_ok s0"
    by (auto intro: tracker_ok_thread_pool simp: thread_pool_default_def tracker_ok_init)
  from tracker_ok_life_aux [OF assms(2) this] assms(3) show ?thesis by simp
qed


lemma updateValue_in_table:
  assumes "0 \<le> previousValue T" "previousValue T < 64" "0 \<le> currentValue T" "currentValue T < 64"
  shows "\<exists>T1. updateValue v T = Some T1 \<and> 0 \<le> previousValue T1 \<and> previousValue T1 < 64"
  using assms by (simp add: updateValue_def)

section \<open>The claims\<close>

text \<open>
  Claim C1, as far as the source goes against it. The claim: the size of a queue with a
  nonzero limit never exceeds the limit. On \<^verbatim>\<open>thread_pool p(1)\<close> (limit 1, one
  worker) three threads call \<^verbatim>\<open>push\<close>. The first stores its task; the second finds
  the queue full and is suspended; the worker pops, and so unblocks the second; before
  the second gets the mutex back the third stores its task; then the second, which does
  not test the size again, stores its task too. The queue holds two tasks, its limit
  is 1.
\<close>

theorem queue_exceeds_limit:
  "clients (the_state (run [Client 0 0, Client 1 0] three_pushes)) ! 1 = C_blocked (Task 1 boom)
   \<and> clients (the_state (run [Client 0 0, Client 1 0, Worker 0 0] three_pushes)) ! 1
       = C_notified (Task 1 boom)
   \<and> q (queue (the_state
         (run [Client 0 0, Client 1 0, Worker 0 0, Client 2 0, Client 1 0] three_pushes)))
       = [Task 2 incr, Task 1 boom]
   \<and> limit (queue (the_state
         (run [Client 0 0, Client 1 0, Worker 0 0, Client 2 0, Client 1 0] three_pushes)))
       = 1"
  by (simp add: model_defs pool_defs)

text \<open>
  Claim C2, as far as the source goes against it. The claim: with limit 0 a \<^verbatim>\<open>push\<close>
  stores the task at once and never suspends its caller. On a default-constructed pool
  (limit 0, empty queue) the test \<^verbatim>\<open>q.size() >= limit_\<close> is \<^verbatim>\<open>0 >= 0\<close>: the first
  \<^verbatim>\<open>push\<close> is suspended with nothing stored, and no thread of the system has a step
  left.
\<close>

theorem limit_zero_push_blocks:
  "case client_step k 0 (submit g thread_pool_default) of
     None \<Rightarrow> False
   | Some s \<Rightarrow> limit (queue s) = 0 \<and> q (queue s) = [] \<and>
       clients s = [C_blocked (Task 0 g)] \<and> (\<forall>e. step e s = None)"
proof -
  have "step e s = None"
    if "workers s = []" "mgr s = M_idle" "clients s = [C_blocked f]"
    for e and s :: "('a, 'b) system" and f
    using that by (cases e) (auto simp: worker_step_def mgr_step_def client_step_def not_le)
  then show ?thesis by (simp add: model_defs pool_defs)
qed

text \<open>
  Claim C3: the constructor \<^verbatim>\<open>thread_pool(nThreads)\<close> leaves the limit of the queue
  at exactly 1 (for every \<^verbatim>\<open>nThreads >= 0\<close>, the values it is defined for), and the
  default constructor leaves it at 0.
\<close>

theorem constructor_limit:
  "(0 \<le> sint n \<longrightarrow>
      (\<exists>s. (thread_pool n :: ('e, 'v) system option) = Some s \<and> limit (queue s) = 1)) \<and>
   limit (queue (thread_pool_default :: ('e, 'v) system)) = 0"
proof -
  have "\<exists>s. (thread_pool n :: ('e, 'v) system option) = Some s \<and> limit (queue s) = 1"
    if "0 \<le> sint n"
  proof -
    have "resize n (init :: ('e, 'v) system) =
        Some (fold set_thread [length (threads (init :: ('e, 'v) system)) ..< nat (sint n)] init)"
      using that by (intro resize_grow) (simp_all add: init_def)
    then show ?thesis by (simp add: thread_pool_def set_limit_def)
  qed
  then show ?thesis by (simp add: thread_pool_default_def init_def Queue_init_def)
qed

theorem constructor_limit_witness:
  "0 \<le> sint (4 :: 32 word) \<and>
   limit (queue (the_state (thread_pool 4 :: (string, int) system option))) = 1 \<and>
   length (workers (the_state (thread_pool 4 :: (string, int) system option))) = 4 \<and>
   limit (queue (thread_pool_default :: (string, int) system)) = 0"
proof -
  have h: "0 \<le> sint (4 :: 32 word)" by simp
  from constructor_limit [where 'e = string and 'v = int, of 4] h
  obtain s where "(thread_pool 4 :: (string, int) system option) = Some s" "limit (queue s) = 1"
    by blast
  then have "limit (queue (the_state (thread_pool 4 :: (string, int) system option))) = 1"
    by (simp add: the_state_def)
  moreover have
    "length (workers (the_state (thread_pool 4 :: (string, int) system option))) = 4"
    by (simp add: model_defs pool_defs upt_rec)
  ultimately show ?thesis
    using h constructor_limit [where 'e = string and 'v = int, of 4] by simp
qed

text \<open>
  Claim C9: \<^verbatim>\<open>pop\<close> on an empty queue returns the empty signal and changes nothing; on
  a queue with head \<open>v\<close> it returns \<open>v\<close> and removes it, the limit stays, and its
  \<^verbatim>\<open>notify_one\<close> takes exactly one thread out of the wait set of \<^verbatim>\<open>push\<close> when there
  is one and none otherwise. \<open>pop\<close> is a function of the queue alone that gives its
  result in one step: it has no way to put its caller into a wait set. The head is the
  oldest element, since a \<^verbatim>\<open>push\<close> that finds room appends at the tail.
\<close>

theorem pop_contract:
  "(q Q = [] \<longrightarrow> pop k Q = (None, None, Q)) \<and>
   (\<forall>v rest. q Q = v # rest \<longrightarrow>
      (\<exists>w Q'. pop k Q = (Some v, w, Q') \<and> q Q' = rest \<and> limit Q' = limit Q \<and>
         (case w of None \<Rightarrow> cv Q = [] \<and> cv Q' = []
          | Some c \<Rightarrow> mset (cv Q) = add_mset c (mset (cv Q'))))) \<and>
   (length (q Q) < unat (limit Q) \<longrightarrow> push c x Q = (Some True, Q\<lparr>q := q Q @ [x]\<rparr>))"
proof (intro conjI allI impI)
  assume "q Q = []"
  then show "pop k Q = (None, None, Q)" by (simp add: pop_def)
next
  fix v rest assume h: "q Q = v # rest"
  show "\<exists>w Q'. pop k Q = (Some v, w, Q') \<and> q Q' = rest \<and> limit Q' = limit Q \<and>
         (case w of None \<Rightarrow> cv Q = [] \<and> cv Q' = []
          | Some c \<Rightarrow> mset (cv Q) = add_mset c (mset (cv Q')))"
  proof (cases "cv Q = []")
    case True
    with h show ?thesis by (simp add: pop_def notify_one_Nil)
  next
    case False
    from notify_one_mset [OF False, of k] obtain c ws'
      where "notify_one k (cv Q) = (Some c, ws')" "mset (cv Q) = add_mset c (mset ws')"
      by blast
    with h show ?thesis by (simp add: pop_def)
  qed
next
  assume "length (q Q) < unat (limit Q)"
  then show "push c x Q = (Some True, Q\<lparr>q := q Q @ [x]\<rparr>)" by (simp add: push_def)
qed

theorem pop_contract_witness:
  "pop 0 \<lparr>q = [], limit = 2, cv = []\<rparr> = (None, None, \<lparr>q = [] :: nat list, limit = 2, cv = []\<rparr>) \<and>
   pop 1 \<lparr>q = [7, 8 :: nat], limit = 2, cv = [3, 4, 5]\<rparr>
     = (Some 7, Some 4, \<lparr>q = [8], limit = 2, cv = [3, 5]\<rparr>) \<and>
   push 6 (9 :: nat) \<lparr>q = [8], limit = 2, cv = [3, 5]\<rparr>
     = (Some True, \<lparr>q = [8, 9], limit = 2, cv = [3, 5]\<rparr>)"
  using pop_contract [of "\<lparr>q = [] :: nat list, limit = 2, cv = []\<rparr>" 0 6 9]
    pop_contract [of "\<lparr>q = [7, 8 :: nat], limit = 2, cv = [3, 4, 5]\<rparr>" 1 6 9]
    pop_contract [of "\<lparr>q = [8 :: nat], limit = 2, cv = [3, 5]\<rparr>" 1 6 9]
  by (simp add: pop_def notify_one_def)

text \<open>
  Claim C10: on a running pool (neither flag set) \<^verbatim>\<open>resize(n)\<close> with \<^verbatim>\<open>n >= 0\<close>
  returns, and \<^verbatim>\<open>size()\<close> is then \<open>n\<close>. When the pool grows, exactly \<open>n\<close> minus the
  previous size threads are started, with the indices from the previous size up to
  \<open>n - 1\<close>, and their records are appended; when it shrinks, the records from \<open>n\<close> on are
  removed and no thread is started. The two side conditions say that the pool is a
  \<^verbatim>\<open>thread_pool\<close> object: the number of threads is an \<^verbatim>\<open>int\<close>, and the two vectors
  have one length.
\<close>

theorem resize_postcondition:
  assumes "0 \<le> sint n" and "\<not> isStop s" "\<not> isDone s"
    and "length (threads s) < 2 ^ 31" and "length (flags s) = length (threads s)"
  shows "\<exists>s'. resize n s = Some s' \<and> pool_size s' = n \<and>
     length (flags s') = length (threads s') \<and>
     (length (threads s) \<le> nat (sint n) \<longrightarrow>
        (\<exists>news. workers s' = workers s @ news \<and>
           length news = nat (sint n) - length (threads s) \<and>
           map w_idx news = [length (threads s) ..< nat (sint n)] \<and>
           (\<forall>w \<in> set news. w_pc w = W_pop \<and> w_handle w = Joinable) \<and>
           threads s' = threads s @ [length (workers s) ..< length (workers s) + length news])) \<and>
     (nat (sint n) < length (threads s) \<longrightarrow>
        threads s' = take (nat (sint n)) (threads s) \<and>
        flags s' = take (nat (sint n)) (flags s) \<and>
        length (workers s') = length (workers s))"
proof (cases "length (threads s) \<le> nat (sint n)")
  case True
  let ?old = "length (threads s)" and ?N = "nat (sint n)"
  let ?s' = "fold set_thread [?old ..< ?N] s"
  have r: "resize n s = Some ?s'" using assms True by (rule resize_grow)
  obtain news where news: "workers ?s' = workers s @ news" "map w_idx news = [?old ..< ?N]"
    "\<forall>w \<in> set news. w_pc w = W_pop \<and> w_handle w = Joinable"
    using fold_set_thread_workers [of "[?old ..< ?N]" s] by blast
  from news(2) have ln: "length news = ?N - ?old"
    by (metis length_map length_upt)
  have th: "threads ?s' = threads s @ [length (workers s) ..< length (workers s) + length news]"
    using fold_set_thread_threads [of "[?old ..< ?N]" s] ln by simp
  have "length (threads ?s') = ?N" using th ln True by simp
  then have sz: "pool_size ?s' = n" using assms(1) by (simp add: pool_size_def)
  have fl: "length (flags ?s') = length (threads ?s')"
    using fold_set_thread_frame [of "[?old ..< ?N]" s] th ln assms(5) by simp
  show ?thesis using r sz fl news ln th True by auto
next
  case False
  then have lt: "nat (sint n) < length (threads s)" by simp
  from resize_shrink [OF assms lt] obtain s1 ws where
    s1: "threads s1 = threads s" "flags s1 = flags s" "length ws = length (workers s)"
    and r: "resize n s = Some (s1\<lparr>workers := ws, pool_cv := [],
             threads := take (nat (sint n)) (threads s),
             flags := take (nat (sint n)) (flags s)\<rparr>)"
    by blast
  have "word_of_nat (min (length (threads s)) (nat (sint n))) = n"
    using lt assms(1) by (simp add: min_def)
  then show ?thesis using r s1 lt assms(5) by (simp add: pool_size_def)
qed

theorem resize_postcondition_witness:
  "0 \<le> sint (3 :: 32 word) \<and> \<not> isStop one_worker \<and> \<not> isDone one_worker \<and>
   length (threads one_worker) < 2 ^ 31 \<and>
   length (flags one_worker) = length (threads one_worker) \<and>
   (\<exists>s'. resize 3 one_worker = Some s' \<and> pool_size s' = 3 \<and> length (workers s') = 3) \<and>
   (\<exists>s'. resize 0 one_worker = Some s' \<and> pool_size s' = 0 \<and> threads s' = [])"
proof -
  have h: "0 \<le> sint (3 :: 32 word)" "0 \<le> sint (0 :: 32 word)"
    "\<not> isStop one_worker" "\<not> isDone one_worker"
    "length (threads one_worker) < 2 ^ 31"
    "length (flags one_worker) = length (threads one_worker)"
    by (simp_all add: model_defs pool_defs)
  have l: "length (threads one_worker) = 1" "length (workers one_worker) = 1"
    by (simp_all add: model_defs pool_defs)
  from resize_postcondition [OF h(1) h(3-6)] l
  have 1: "\<exists>s'. resize 3 one_worker = Some s' \<and> pool_size s' = 3 \<and> length (workers s') = 3"
    by auto
  from resize_postcondition [OF h(2) h(3-6)] l
  have 2: "\<exists>s'. resize 0 one_worker = Some s' \<and> pool_size s' = 0 \<and> threads s' = []"
    by auto
  show ?thesis using h 1 2 by blast
qed

text \<open>
  Claim C4, as the source has it. The claim: once either flag is set, every later
  \<^verbatim>\<open>resize\<close> and every later \<^verbatim>\<open>push\<close> is rejected, and the two flags are never both
  set. What holds: once either flag is set, \<^verbatim>\<open>resize\<close> leaves the pool as it is and
  \<^verbatim>\<open>stop(true)\<close> returns at its first test without touching a flag (so the draining
  flag is never set on a pool that is stopping); \<^verbatim>\<open>push\<close> has no test of the flags
  and stores its task whenever the queue has room; and \<^verbatim>\<open>stop(false)\<close>, which tests
  only the stopping flag, sets it on a draining pool as well.
\<close>

theorem stop_flags_and_rejection:
  "(isStop s \<or> isDone s \<longrightarrow> resize n s = Some s) \<and>
   (isStop s \<or> isDone s \<longrightarrow> mgr s = M_stop True \<longrightarrow> mgr_step k s = Some (s\<lparr>mgr := M_idle\<rparr>)) \<and>
   (c < length (clients s) \<and> clients s ! c = C_enter f \<and>
    length (q (queue s)) < unat (limit (queue s)) \<longrightarrow>
      (\<exists>s'. client_step k c s = Some s' \<and> q (queue s') = q (queue s) @ [f] \<and>
         isStop s' = isStop s \<and> isDone s' = isDone s)) \<and>
   (\<not> isStop s \<and> mgr s = M_stop False \<longrightarrow>
      (\<exists>s'. mgr_step k s = Some s' \<and> isStop s' \<and> isDone s' = isDone s))"
  by (auto simp: resize_def mgr_step_def client_step_def push_def set_cpc_def)

theorem stop_flags_and_rejection_witness:
  "isDone drained \<and> \<not> isStop drained \<and> resize 2 drained = Some drained \<and>
   mgr_step 0 (call_stop True drained) = Some drained \<and>
   isStop (the_state (mgr_step 0 (call_stop False drained))) \<and>
   isDone (the_state (mgr_step 0 (call_stop False drained))) \<and>
   q (queue (the_state (client_step 0 0 (submit incr drained)))) = [Task 0 incr]"
proof -
  have h: "isDone drained" "\<not> isStop drained" "mgr drained = M_idle"
    by (simp_all add: model_defs pool_defs numeral_eq_Suc)
  have c: "0 < length (clients (submit incr drained))"
    "clients (submit incr drained) ! 0 = C_enter (Task 0 incr)"
    "length (q (queue (submit incr drained))) < unat (limit (queue (submit incr drained)))"
    "q (queue (submit incr drained)) = []"
    by (simp_all add: model_defs pool_defs numeral_eq_Suc)
  have 1: "resize 2 drained = Some drained"
    using stop_flags_and_rejection [of drained 2 0 0 "Task 0 incr"] h by blast
  have "mgr_step 0 (call_stop True drained) = Some ((call_stop True drained)\<lparr>mgr := M_idle\<rparr>)"
    using stop_flags_and_rejection [of "call_stop True drained" 2 0 0 "Task 0 incr"] h
    by (simp add: call_stop_def)
  moreover have "(call_stop True drained)\<lparr>mgr := M_idle\<rparr> = drained"
    using h(3) by (simp add: call_stop_def)
  ultimately have 2: "mgr_step 0 (call_stop True drained) = Some drained" by simp
  have "\<exists>s'. mgr_step 0 (call_stop False drained) = Some s' \<and> isStop s' \<and>
      isDone s' = isDone (call_stop False drained)"
    using stop_flags_and_rejection [of "call_stop False drained" 2 0 0 "Task 0 incr"] h
    by (simp add: call_stop_def)
  then have 3: "isStop (the_state (mgr_step 0 (call_stop False drained)))"
    "isDone (the_state (mgr_step 0 (call_stop False drained)))"
    using h by (auto simp: the_state_def call_stop_def)
  have "\<exists>s'. client_step 0 0 (submit incr drained) = Some s' \<and>
      q (queue s') = q (queue (submit incr drained)) @ [Task 0 incr]"
    using stop_flags_and_rejection [of "submit incr drained" 2 0 0 "Task 0 incr"] c by blast
  then have 4: "q (queue (the_state (client_step 0 0 (submit incr drained)))) = [Task 0 incr]"
    using c(4) by (auto simp: the_state_def)
  show ?thesis using h 1 2 3 4 by simp
qed

text \<open>
  Claim C4 fails as stated: on \<^verbatim>\<open>thread_pool p(0)\<close>, after \<^verbatim>\<open>p.stop(true)\<close> and then
  \<^verbatim>\<open>p.stop(false)\<close> both flags are set, and a \<^verbatim>\<open>push\<close> after that stores its task
  in the queue.
\<close>

theorem flags_both_set_push_accepted:
  "isDone drained \<and> \<not> isStop drained \<and> isDone drained_stopped \<and> isStop drained_stopped \<and>
   q (queue drained_stopped) = [] \<and>
   isStop pushed_after_stop \<and> q (queue pushed_after_stop) = [Task 0 incr]"
  by (simp add: model_defs pool_defs numeral_eq_Suc)

text \<open>
  Claim C7: when the callable of a claimed task raises \<open>e\<close>, the worker's step stores
  exactly \<open>e\<close> in the channel that the task's future reads, and the worker is where it
  is after any task: at the test of its flag, not returned. When the flag is not set
  it goes on to pop, and claims the task at the head of the queue if there is one.
  When the queue is empty, on a pool that is not draining, whose queue has a limit
  other than 0 and whose tracker is inside its table, the worker goes through the pop
  to the wait and is suspended there; a \<^verbatim>\<open>push\<close> that comes then stores its task, its
  \<^verbatim>\<open>notify_one\<close> wakes the worker (the choice \<open>length (pool_cv s)\<close> names the thread that
  entered the wait set last) and the \<^verbatim>\<open>push\<close> returns; the worker claims this task
  through the predicate of its wait and invokes it, and the task's future holds what
  its callable gives. The conditions name what ends a worker or stops a \<^verbatim>\<open>push\<close>
  whether or not a task has failed: a worker returns when its flag is set or the pool
  drains, a \<^verbatim>\<open>push\<close> on a queue of limit 0 is suspended, and a tracker outside of its
  table is undefined behaviour. The future that \<^verbatim>\<open>push\<close> returns for a callable is
  the one of the channel of the task that wraps this callable.
\<close>

theorem failure_containment:
  assumes "t < length (workers s)" and "w_pc (workers s ! t) = W_run f"
    and "callable f (int (w_idx (workers s ! t))) = Inl e"
  shows "(\<exists>s1. worker_step k t s = Some s1 \<and> future_get s1 (chan f) = Ready (Inl e) \<and>
           w_pc (workers s1 ! t) = W_check \<and>
           (\<not> atomics s1 (w_flag (workers s1 ! t)) \<longrightarrow>
              (\<exists>s2. worker_step k t s1 = Some s2 \<and> w_pc (workers s2 ! t) = W_pop \<and>
                 queue s2 = queue s \<and>
                 (\<forall>g rest. q (queue s) = g # rest \<longrightarrow>
                    (\<exists>s3. worker_step k t s2 = Some s3 \<and>
                       w_pc (workers s3 ! t) = W_run g))))) \<and>
         (\<not> atomics s (w_flag (workers s ! t)) \<and> \<not> isDone s \<and> q (queue s) = [] \<and>
          limit (queue s) \<noteq> 0 \<and>
          (\<exists>T. tracker s = Some T \<and> 0 \<le> previousValue T \<and> previousValue T < 64 \<and>
               0 \<le> currentValue T \<and> currentValue T < 64) \<longrightarrow>
            (\<exists>s4. run [Worker t k, Worker t k, Worker t k, Worker t k] s = Some s4 \<and>
               w_pc (workers s4 ! t) = W_waiting \<and> (\<forall>k'. worker_step k' t s4 = None) \<and>
               (\<forall>g. case pool_push g s4 of
                  (fut, c, s5) \<Rightarrow>
                    (\<exists>s9. run [Client c k, Client c (length (pool_cv s)), Worker t k,
                              Worker t k] s5 = Some s9 \<and>
                       clients s9 ! c = C_done \<and>
                       w_pc (workers s9 ! t) = W_check \<and>
                       executed s9 = executed s @ [(w_idx (workers s ! t), f),
                         (w_idx (workers s ! t), Task fut g)] \<and>
                       future_get s9 fut = Ready (g (int (w_idx (workers s ! t)))) \<and>
                       tracker s9 \<noteq> None)))) \<and>
         (\<forall>g' s0. case pool_push g' s0 of
            (fut, c, s0') \<Rightarrow> clients s0' ! c = C_enter (Task fut g') \<and>
               future_get s0' fut = future_get s0 fut)"
proof -
  have A: "\<exists>s1. worker_step k t s = Some s1 \<and> future_get s1 (chan f) = Ready (Inl e) \<and>
           w_pc (workers s1 ! t) = W_check \<and>
           (\<not> atomics s1 (w_flag (workers s1 ! t)) \<longrightarrow>
              (\<exists>s2. worker_step k t s1 = Some s2 \<and> w_pc (workers s2 ! t) = W_pop \<and>
                 queue s2 = queue s \<and>
                 (\<forall>g rest. q (queue s) = g # rest \<longrightarrow>
                    (\<exists>s3. worker_step k t s2 = Some s3 \<and>
                       w_pc (workers s3 ! t) = W_run g))))"
    using assms
    by (auto simp: worker_step_def set_pc_def future_get_def queue_pop_def pop_def)
  have C: "\<forall>g' s0. case pool_push g' s0 of
            (fut, c, s0') \<Rightarrow> clients s0' ! c = C_enter (Task fut g') \<and>
               future_get s0' fut = future_get s0 fut"
    by (simp add: pool_push_def future_get_def)
  have B: "\<exists>s4. run [Worker t k, Worker t k, Worker t k, Worker t k] s = Some s4 \<and>
               w_pc (workers s4 ! t) = W_waiting \<and> (\<forall>k'. worker_step k' t s4 = None) \<and>
               (\<forall>g. case pool_push g s4 of
                  (fut, c, s5) \<Rightarrow>
                    (\<exists>s9. run [Client c k, Client c (length (pool_cv s)), Worker t k,
                              Worker t k] s5 = Some s9 \<and>
                       clients s9 ! c = C_done \<and>
                       w_pc (workers s9 ! t) = W_check \<and>
                       executed s9 = executed s @ [(w_idx (workers s ! t), f),
                         (w_idx (workers s ! t), Task fut g)] \<and>
                       future_get s9 fut = Ready (g (int (w_idx (workers s ! t)))) \<and>
                       tracker s9 \<noteq> None))"
    if h: "\<not> atomics s (w_flag (workers s ! t))" "\<not> isDone s" "q (queue s) = []"
      "limit (queue s) \<noteq> 0"
      and T: "tracker s = Some T" "0 \<le> previousValue T" "previousValue T < 64"
        "0 \<le> currentValue T" "currentValue T < 64" for T
  proof -
    from updateValue_in_table [OF T(2-5), of "nWaiting s + 1"] obtain T1 where
      u1: "updateValue (nWaiting s + 1) T = Some T1"
      and b1: "0 \<le> previousValue T1" "previousValue T1 < 64" by blast
    from b1 have "\<exists>T2. updateValue (nWaiting s) T1 = Some T2"
      by (simp add: updateValue_def)
    then obtain T2 where u2: "updateValue (nWaiting s) T1 = Some T2" ..
    from h(4) have lim: "\<not> unat (limit (queue s)) \<le> 0" by (simp add: unat_eq_0)
    show ?thesis
      using assms h T(1) u1 u2 lim
      by (simp add: worker_step_def wait_pred_def set_pc_def update_tracker_def queue_pop_def
          pop_def pool_push_def client_step_def push_def set_cpc_def notify_one_def
          wake_worker_def wake_client_def future_get_def nth_append split: cpc.splits)
  qed
  from B have B': "\<not> atomics s (w_flag (workers s ! t)) \<and> \<not> isDone s \<and> q (queue s) = [] \<and>
          limit (queue s) \<noteq> 0 \<and>
          (\<exists>T. tracker s = Some T \<and> 0 \<le> previousValue T \<and> previousValue T < 64 \<and>
               0 \<le> currentValue T \<and> currentValue T < 64) \<longrightarrow>
            (\<exists>s4. run [Worker t k, Worker t k, Worker t k, Worker t k] s = Some s4 \<and>
               w_pc (workers s4 ! t) = W_waiting \<and> (\<forall>k'. worker_step k' t s4 = None) \<and>
               (\<forall>g. case pool_push g s4 of
                  (fut, c, s5) \<Rightarrow>
                    (\<exists>s9. run [Client c k, Client c (length (pool_cv s)), Worker t k,
                              Worker t k] s5 = Some s9 \<and>
                       clients s9 ! c = C_done \<and>
                       w_pc (workers s9 ! t) = W_check \<and>
                       executed s9 = executed s @ [(w_idx (workers s ! t), f),
                         (w_idx (workers s ! t), Task fut g)] \<and>
                       future_get s9 fut = Ready (g (int (w_idx (workers s ! t)))) \<and>
                       tracker s9 \<noteq> None)))"
    by blast
  from A B' C show ?thesis by (intro conjI)
qed

theorem failure_containment_witness:
  "0 < length (workers boom_claimed) \<and>
   w_pc (workers boom_claimed ! 0) = W_run (Task 1 boom) \<and>
   callable (Task 1 boom) (int (w_idx (workers boom_claimed ! 0))) = Inl ''boom'' \<and>
   future_get (the_state (run [Worker 0 0] boom_claimed)) 1 = Ready (Inl ''boom'') \<and>
   w_pc (workers (the_state (run [Worker 0 0, Worker 0 0, Worker 0 0] boom_claimed)) ! 0)
     = W_run (Task 2 incr) \<and>
   0 < length (workers boom_alone) \<and>
   w_pc (workers boom_alone ! 0) = W_run (Task 0 boom) \<and>
   callable (Task 0 boom) (int (w_idx (workers boom_alone ! 0))) = Inl ''boom'' \<and>
   \<not> atomics boom_alone (w_flag (workers boom_alone ! 0)) \<and> \<not> isDone boom_alone \<and>
   q (queue boom_alone) = [] \<and> limit (queue boom_alone) \<noteq> 0 \<and>
   tracker boom_alone = Some \<lparr>previousValue = 0, currentValue = 0\<rparr> \<and>
   pool_cv boom_alone = [] \<and>
   future_get (the_state (run (replicate 4 (Worker 0 0)) boom_alone)) 0 = Ready (Inl ''boom'') \<and>
   w_pc (workers (the_state (run (replicate 4 (Worker 0 0)) boom_alone)) ! 0) = W_waiting \<and>
   run (replicate 5 (Worker 0 0)) boom_alone = None \<and>
   w_pc (workers (the_state (run [Client 1 0, Client 1 0, Worker 0 0]
     (submit incr (the_state (run (replicate 4 (Worker 0 0)) boom_alone))))) ! 0)
     = W_run (Task 1 incr) \<and>
   future_get (the_state (run [Client 1 0, Client 1 0, Worker 0 0, Worker 0 0]
     (submit incr (the_state (run (replicate 4 (Worker 0 0)) boom_alone))))) 1
     = Ready (Inr 1) \<and>
   future_get (the_state (run [Client 1 0, Client 1 0, Worker 0 0, Worker 0 0]
     (submit incr (the_state (run (replicate 4 (Worker 0 0)) boom_alone))))) 0
     = Ready (Inl ''boom'')"
proof -
  have h: "0 < length (workers boom_claimed)"
    "w_pc (workers boom_claimed ! 0) = W_run (Task 1 boom)"
    "callable (Task 1 boom) (int (w_idx (workers boom_claimed ! 0))) = Inl ''boom''"
    by (simp_all add: model_defs pool_defs)
  have a: "0 < length (workers boom_alone)"
    "w_pc (workers boom_alone ! 0) = W_run (Task 0 boom)"
    "callable (Task 0 boom) (int (w_idx (workers boom_alone ! 0))) = Inl ''boom''"
    by (simp_all add: model_defs pool_defs)
  from failure_containment [OF h, of 0] failure_containment [OF a, of 0] h a show ?thesis
    by (simp add: model_defs pool_defs numeral_eq_Suc)
qed

text \<open>
  Claim C8: a worker that has claimed a task runs it and comes to the test of its flag
  with the queue untouched; when the flag is set at that test it returns, the queue
  is still untouched (whatever it holds), and the worker has no further step.
\<close>

theorem worker_fast_exit:
  assumes "t < length (workers s)"
  shows "(\<forall>f. w_pc (workers s ! t) = W_run f \<longrightarrow>
           (\<exists>s1. worker_step k t s = Some s1 \<and> w_pc (workers s1 ! t) = W_check \<and>
              queue s1 = queue s \<and>
              executed s1 = executed s @ [(w_idx (workers s ! t), f)])) \<and>
         (w_pc (workers s ! t) = W_check \<and> atomics s (w_flag (workers s ! t)) \<longrightarrow>
           (\<exists>s1. worker_step k t s = Some s1 \<and> w_pc (workers s1 ! t) = W_exit \<and>
              queue s1 = queue s \<and> (\<forall>k'. worker_step k' t s1 = None)))"
  using assms by (simp add: worker_step_def set_pc_def)

theorem worker_fast_exit_witness:
  "0 < length (workers shrunk_busy) \<and>
   w_pc (workers shrunk_busy ! 0) = W_run (Task 0 incr) \<and>
   atomics shrunk_busy (w_flag (workers shrunk_busy ! 0)) \<and>
   q (queue shrunk_busy) = [Task 2 incr] \<and>
   w_pc (workers (the_state (run [Worker 0 0] shrunk_busy)) ! 0) = W_check \<and>
   w_pc (workers (the_state (run [Worker 0 0, Worker 0 0] shrunk_busy)) ! 0) = W_exit \<and>
   q (queue (the_state (run [Worker 0 0, Worker 0 0] shrunk_busy))) = [Task 2 incr] \<and>
   run [Worker 0 0, Worker 0 0, Worker 0 0] shrunk_busy = None"
proof -
  have h: "0 < length (workers shrunk_busy)" by (simp add: model_defs pool_defs)
  have "w_pc (workers shrunk_busy ! 0) = W_run (Task 0 incr)"
    "atomics shrunk_busy (w_flag (workers shrunk_busy ! 0))"
    "q (queue shrunk_busy) = [Task 2 incr]"
    by (simp_all add: model_defs pool_defs)
  with worker_fast_exit [OF h, of 0] h show ?thesis
    by (simp add: model_defs pool_defs)
qed







end
